theory Spec2Isabelle
  imports Main "HOL-Library.Char_ord" "HOL-Library.List_Lexorder" "HOL-Library.AList"
begin

section \<open>Boolean terms (booleq.py)\<close>

text \<open>
  The classes \<open>TrueValue\<close>, \<open>FalseValue\<close>, \<open>Eq\<close>, \<open>And\<close> and \<open>Or\<close> of booleq.py. \<open>TRUE\<close> and
  \<open>FALSE\<close> are the two singleton instances. An \<open>Eq\<close> node carries its attributes \<open>left\<close> and
  \<open>right\<close>; an \<open>And\<close> or \<open>Or\<close> node carries \<open>exprs\<close>, a frozenset, written here as the list of
  its elements in the order in which the frozenset iterates (an order the code does not
  control: no theorem below depends on it). The datatype constructors are the bare nodes;
  calling a class in Python runs its \<open>__new__\<close>, modelled by \<open>Eq_new\<close>, \<open>And_new\<close>, \<open>Or_new\<close>.
  Labels are Python 2 byte strings, compared bytewise (\<open>Char_ord\<close>, \<open>List_Lexorder\<close>).
\<close>

datatype bterm =
    TRUE
  | FALSE
  | Eq string string
  | And "bterm list"
  | Or "bterm list"

text \<open>
  \<open>Eq.__new__\<close>: \<open>TRUE\<close> for equal labels, otherwise
  \<open>eq.left, eq.right = reversed(sorted((left, right)))\<close>, the larger label on the left.
\<close>

definition Eq_new :: "string \<Rightarrow> string \<Rightarrow> bterm" where
  "Eq_new left right =
     (if left = right then TRUE
      else (case rev (sort [left, right]) of l # r # _ \<Rightarrow> Eq l r | _ \<Rightarrow> TRUE))"

text \<open>\<open>Eq.__eq__\<close>: same type, same \<open>left\<close>, same \<open>right\<close>.\<close>

fun Eq_eq :: "bterm \<Rightarrow> bterm \<Rightarrow> bool" where
  "Eq_eq (Eq l r) (Eq l' r') = (l = l' \<and> r = r')"
| "Eq_eq _ _ = False"

text \<open>\<open>Eq.__hash__\<close> hashes the tuple \<open>(self.left, self.right)\<close>; this is that tuple.\<close>

fun Eq_hash_key :: "bterm \<Rightarrow> (string \<times> string) option" where
  "Eq_hash_key (Eq l r) = Some (l, r)"
| "Eq_hash_key _ = None"

text \<open>\<open>e.exprs if isinstance(e, And) else [e]\<close>, and the same for \<open>Or\<close>.\<close>

fun And_flatten :: "bterm \<Rightarrow> bterm list" where
  "And_flatten (And es) = es"
| "And_flatten e = [e]"

fun Or_flatten :: "bterm \<Rightarrow> bterm list" where
  "Or_flatten (Or es) = es"
| "Or_flatten e = [e]"

text \<open>
  \<open>And.__new__\<close> and \<open>Or.__new__\<close>: \<open>expr_set = frozenset(flattened)\<close>, then
  \<open>expr_set -= frozenset([TRUE])\<close> (\<open>removeAll\<close>) and the three branches
  \<open>len(expr_set) > 1\<close>, \<open>elif expr_set\<close> and \<open>else\<close>.

  Which elements a frozenset takes for one depends on \<open>__hash__\<close> and \<open>__eq__\<close>. \<open>Eq\<close> hashes
  and compares by \<open>(left, right)\<close> and the constants are singletons, so equal leaves are
  one element. \<open>And\<close> and \<open>Or\<close> define \<open>__eq__\<close> but no \<open>__hash__\<close>: in Python 2 they hash by
  identity, and two compound children are one element only when they are the same
  object. A term of \<open>bterm\<close> is a value and does not say which object it is, so the
  content of \<open>frozenset(xs)\<close> is a relation: \<open>frozenset_of xs ys\<close> holds when \<open>ys\<close> can be the
  list of its elements. It has the terms of \<open>xs\<close>, every leaf once, and every compound
  term at least once and at most as often as \<open>xs\<close> has it (once for each different object
  of that value). \<open>And_of\<close> and \<open>Or_of\<close> are the rest of \<open>__new__\<close>, on such a content.
\<close>

fun is_compound :: "bterm \<Rightarrow> bool" where
  "is_compound (And es) = True"
| "is_compound (Or es) = True"
| "is_compound _ = False"

definition frozenset_of :: "bterm list \<Rightarrow> bterm list \<Rightarrow> bool" where
  "frozenset_of xs ys =
     (set ys = set xs
      \<and> distinct (filter (\<lambda>e. \<not> is_compound e) ys)
      \<and> list_all (\<lambda>e. count_list ys e \<le> count_list xs e) ys)"

definition And_of :: "bterm list \<Rightarrow> bterm" where
  "And_of frozen =
     (let expr_set = removeAll TRUE frozen
      in if FALSE \<in> set expr_set then FALSE
         else if length expr_set > 1 then And expr_set
         else (case expr_set of expr # _ \<Rightarrow> expr | [] \<Rightarrow> TRUE))"

definition Or_of :: "bterm list \<Rightarrow> bterm" where
  "Or_of frozen =
     (let expr_set = removeAll FALSE frozen
      in if TRUE \<in> set expr_set then TRUE
         else if length expr_set > 1 then Or expr_set
         else (case expr_set of expr # _ \<Rightarrow> expr | [] \<Rightarrow> FALSE))"

text \<open>
  \<open>And_new\<close> and \<open>Or_new\<close> are the two constructors for the content in which equal children
  are the same object (\<open>remdups\<close>): one of the contents that \<open>frozenset_of\<close> admits, and
  up to the order of the list the only one when no compound child is repeated. \<open>simplify\<close> and \<open>solve\<close> are written with
  them. A repeated compound child changes neither the constant that a constructor
  returns nor the pivots of the term it returns (\<open>And_new_any_content\<close>,
  \<open>Or_new_any_content\<close>).
\<close>

definition And_new :: "bterm list \<Rightarrow> bterm" where
  "And_new exprs =
     (let flattened = concat (map And_flatten exprs);
          expr_set = removeAll TRUE (remdups flattened)
      in if FALSE \<in> set expr_set then FALSE
         else if length expr_set > 1 then And expr_set
         else (case expr_set of expr # _ \<Rightarrow> expr | [] \<Rightarrow> TRUE))"

definition Or_new :: "bterm list \<Rightarrow> bterm" where
  "Or_new exprs =
     (let flattened = concat (map Or_flatten exprs);
          expr_set = removeAll FALSE (remdups flattened)
      in if TRUE \<in> set expr_set then TRUE
         else if length expr_set > 1 then Or expr_set
         else (case expr_set of expr # _ \<Rightarrow> expr | [] \<Rightarrow> FALSE))"

section \<open>Simplification\<close>

text \<open>
  An assignment is a dict from variable names to sets of value names. The dict is an
  association list with one entry per key; a set of names is the list of its elements.
  \<open>dict_get\<close> is \<open>assignments.get(key, ())\<close>.
\<close>

type_synonym assignments = "(string \<times> string list) list"

definition dict_get :: "assignments \<Rightarrow> string \<Rightarrow> string list" where
  "dict_get assignments key = (case map_of assignments key of None \<Rightarrow> [] | Some vs \<Rightarrow> vs)"

fun simplify :: "bterm \<Rightarrow> assignments \<Rightarrow> bterm" where
  "simplify TRUE assignments = TRUE"
| "simplify FALSE assignments = FALSE"
| "simplify (Eq left right) assignments =
     (if right \<in> set (dict_get assignments left) \<or> left \<in> set (dict_get assignments right)
      then Eq left right
      else
        let intersection =
              remdups (filter (\<lambda>i. i \<in> set (dict_get assignments right))
                              (dict_get assignments left))
        in Or_new (map (\<lambda>i. And_new [Eq_new left i, Eq_new i right]) intersection))"
| "simplify (And exprs) assignments = And_new (map (\<lambda>t. simplify t assignments) exprs)"
| "simplify (Or exprs) assignments = Or_new (map (\<lambda>t. simplify t assignments) exprs)"

section \<open>Pivot extraction\<close>

text \<open>
  A pivot dict maps names to frozensets of names: an association list with one entry per
  key. A failed lookup or index (\<open>KeyError\<close>, \<open>IndexError\<close>) is the result \<open>None\<close>.
\<close>

type_synonym pivots = "(string \<times> string set) list"

text \<open>
  The body of the inner loop of \<open>And.extract_pivots\<close>:
  \<open>if name in pivots: pivots[name] &= values else: pivots[name] = values\<close>.
\<close>

fun and_merge :: "string \<times> string set \<Rightarrow> pivots \<Rightarrow> pivots" where
  "and_merge (name, vs) pivots =
     (case map_of pivots name of
        Some old \<Rightarrow> AList.update name (old \<inter> vs) pivots
      | None \<Rightarrow> AList.update name vs pivots)"

text \<open>The outer loop of \<open>And.extract_pivots\<close> over the children's pivots, in order.\<close>

fun and_loop :: "pivots option list \<Rightarrow> pivots \<Rightarrow> pivots option" where
  "and_loop [] pivots = Some pivots"
| "and_loop (None # rest) pivots = None"
| "and_loop (Some expr_pivots # rest) pivots = and_loop rest (fold and_merge expr_pivots pivots)"

text \<open>
  \<open>Or.extract_pivots\<close>. \<open>or_keys\<close> is the loop \<open>intersection &= frozenset(p.keys())\<close> started
  from the keys of \<open>pivots_list[0]\<close>; \<open>or_values\<close> is the loop \<open>values |= p[pivot]\<close>, where
  \<open>p[pivot]\<close> raises for a missing key.
\<close>

definition or_keys :: "pivots \<Rightarrow> pivots list \<Rightarrow> string list" where
  "or_keys p0 rest =
     fold (\<lambda>p intersection. filter (\<lambda>k. k \<in> fst ` set p) intersection) rest
          (remdups (map fst p0))"

fun or_values :: "pivots list \<Rightarrow> string \<Rightarrow> string set \<Rightarrow> string set option" where
  "or_values [] pivot vs = Some vs"
| "or_values (p # ps) pivot vs =
     (case map_of p pivot of None \<Rightarrow> None | Some s \<Rightarrow> or_values ps pivot (vs \<union> s))"

fun or_collect :: "pivots list \<Rightarrow> string list \<Rightarrow> pivots \<Rightarrow> pivots option" where
  "or_collect pivots_list [] pivots = Some pivots"
| "or_collect pivots_list (pivot # more) pivots =
     (case or_values pivots_list pivot {} of
        None \<Rightarrow> None
      | Some vs \<Rightarrow> or_collect pivots_list more (AList.update pivot vs pivots))"

definition or_pivots :: "pivots option list \<Rightarrow> pivots option" where
  "or_pivots results =
     (case those results of
        None \<Rightarrow> None
      | Some [] \<Rightarrow> None
      | Some (p0 # rest) \<Rightarrow> or_collect (p0 # rest) (or_keys p0 rest) [])"

fun extract_pivots :: "bterm \<Rightarrow> pivots option" where
  "extract_pivots TRUE = Some []"
| "extract_pivots FALSE = Some []"
| "extract_pivots (Eq left right) =
     Some (AList.update right {left} (AList.update left {right} []))"
| "extract_pivots (And exprs) = and_loop (map extract_pivots exprs) []"
| "extract_pivots (Or exprs) = or_pivots (map extract_pivots exprs)"

section \<open>The solver\<close>

text \<open>
  The attributes of a \<open>Solver\<close> object. \<open>implications\<close> is a dict keyed by terms. A Python
  exception (a failed \<open>assert\<close>, a \<open>KeyError\<close>) is the result \<open>None\<close>.
\<close>

record solver =
  variables :: "string list"
  values' :: "string list"
  implications :: "bterm \<rightharpoonup> bterm"
  ground_truth :: "bterm"

definition Solver_init :: "solver" where
  "Solver_init = \<lparr>variables = [], values' = [], implications = Map.empty, ground_truth = TRUE\<rparr>"

definition register_variable :: "solver \<Rightarrow> string \<Rightarrow> solver" where
  "register_variable S variable = S\<lparr>variables := variables S @ [variable]\<rparr>"

definition register_value :: "solver \<Rightarrow> string \<Rightarrow> solver" where
  "register_value S v = S\<lparr>values' := values' S @ [v]\<rparr>"

text \<open>\<open>always_true\<close>: \<open>assert formula != FALSE\<close>, then conjoin.\<close>

definition always_true :: "solver \<Rightarrow> bterm \<Rightarrow> solver option" where
  "always_true S formula =
     (if formula = FALSE then None
      else Some (S\<lparr>ground_truth := And_new [ground_truth S, formula]\<rparr>))"

text \<open>
  \<open>implies\<close>: the explicit \<open>raise AssertionError\<close> for \<open>FALSE\<close> and \<open>TRUE\<close>, then
  \<open>assert isinstance(e, Eq)\<close> and \<open>assert e not in self.implications\<close>.
\<close>

fun is_Eq :: "bterm \<Rightarrow> bool" where
  "is_Eq (Eq l r) = True"
| "is_Eq _ = False"

definition implies' :: "solver \<Rightarrow> bterm \<Rightarrow> bterm \<Rightarrow> solver option" where
  "implies' S e implication =
     (if e = FALSE \<or> e = TRUE then None
      else if \<not> is_Eq e then None
      else if implications S e \<noteq> None then None
      else Some (S\<lparr>implications := (implications S)(e \<mapsto> implication)\<rparr>))"

text \<open>\<open>_complete\<close>: the two nested loops over variables and values.\<close>

definition complete_step :: "string \<Rightarrow> string \<Rightarrow> (bterm \<rightharpoonup> bterm) \<Rightarrow> (bterm \<rightharpoonup> bterm)" where
  "complete_step var v imps =
     (let e = Eq_new var v in if imps e = None then imps(e \<mapsto> TRUE) else imps)"

definition complete :: "solver \<Rightarrow> solver" where
  "complete S =
     S\<lparr>implications :=
         fold (\<lambda>var. fold (complete_step var) (values' S)) (variables S) (implications S)\<rparr>"

text \<open>
  The initial assignment of \<open>solve\<close>: for each variable the set of the values \<open>value\<close> with
  \<open>self.implications[Eq(var, value)] != FALSE\<close>. The lookup raises for a missing key.
\<close>

fun possible_values :: "(bterm \<rightharpoonup> bterm) \<Rightarrow> string \<Rightarrow> string list \<Rightarrow> string list option" where
  "possible_values imps var [] = Some []"
| "possible_values imps var (v # rest) =
     (case imps (Eq_new var v) of
        None \<Rightarrow> None
      | Some implication \<Rightarrow>
          (case possible_values imps var rest of
             None \<Rightarrow> None
           | Some vs \<Rightarrow> Some (if implication \<noteq> FALSE then v # vs else vs)))"

fun init_assignments :: "solver \<Rightarrow> string list \<Rightarrow> assignments \<Rightarrow> assignments option" where
  "init_assignments S [] assignments = Some assignments"
| "init_assignments S (var # rest) assignments =
     (case possible_values (implications S) var (values' S) of
        None \<Rightarrow> None
      | Some vs \<Rightarrow> init_assignments S rest (AList.update var (remdups vs) assignments))"

text \<open>
  Narrowing by the pivots of the ground truth:
  \<open>if pivot in assignments: assignments[pivot] &= set(possible_values)\<close>.
\<close>

fun ground_step :: "string \<times> string set \<Rightarrow> assignments \<Rightarrow> assignments" where
  "ground_step (pivot, possible) assignments =
     (case map_of assignments pivot of
        None \<Rightarrow> assignments
      | Some cands \<Rightarrow> AList.update pivot (filter (\<lambda>v. v \<in> possible) cands) assignments)"

text \<open>\<open>assignments[var].remove(value)\<close>, which raises when the key or the value is missing.\<close>

definition set_remove :: "assignments \<Rightarrow> string \<Rightarrow> string \<Rightarrow> assignments option" where
  "set_remove assignments var v =
     (case map_of assignments var of
        None \<Rightarrow> None
      | Some cands \<Rightarrow>
          if v \<in> set cands then Some (AList.update var (removeAll v cands) assignments)
          else None)"

text \<open>A loop whose body may raise: the first exception ends it.\<close>

fun foldM :: "('a \<Rightarrow> 's \<Rightarrow> 's option) \<Rightarrow> 'a list \<Rightarrow> 's \<Rightarrow> 's option" where
  "foldM f [] s = Some s"
| "foldM f (x # xs) s = (case f x s of None \<Rightarrow> None | Some s' \<Rightarrow> foldM f xs s')"

text \<open>
  The body of \<open>for value in assignments[var].copy()\<close>; the state is the assignment, the
  flag \<open>something_changed\<close> and the list \<open>terms\<close>.
\<close>

fun check_value ::
  "solver \<Rightarrow> string \<Rightarrow> string \<Rightarrow> assignments \<times> bool \<times> bterm list
     \<Rightarrow> (assignments \<times> bool \<times> bterm list) option" where
  "check_value S var v (assignments, something_changed, terms) =
     (case implications S (Eq_new var v) of
        None \<Rightarrow> None
      | Some implication \<Rightarrow>
          if simplify implication assignments = FALSE
          then (case set_remove assignments var v of
                  None \<Rightarrow> None
                | Some assignments' \<Rightarrow> Some (assignments', True, terms @ [implication]))
          else Some (assignments, something_changed, terms @ [implication]))"

text \<open>
  The body of the loop over the pivots of the simplified disjunction; \<open>len\<close> of a set is
  the number of its distinct elements.
\<close>

fun narrow_step :: "string \<times> string set \<Rightarrow> assignments \<times> bool \<Rightarrow> assignments \<times> bool" where
  "narrow_step (pivot, possible) (assignments, something_changed) =
     (case map_of assignments pivot of
        None \<Rightarrow> (assignments, something_changed)
      | Some cands \<Rightarrow>
          let length_before = card (set cands);
              cands' = filter (\<lambda>v. v \<in> possible) cands;
              length_after = card (set cands')
          in (AList.update pivot cands' assignments,
              something_changed \<or> length_before \<noteq> length_after))"

text \<open>The body of \<open>for var in self.variables\<close>.\<close>

definition var_step :: "solver \<Rightarrow> string \<Rightarrow> assignments \<times> bool \<Rightarrow> (assignments \<times> bool) option" where
  "var_step S var st =
     (case st of (assignments, something_changed) \<Rightarrow>
        (case map_of assignments var of
           None \<Rightarrow> None
         | Some cands \<Rightarrow>
             (case foldM (check_value S var) cands (assignments, something_changed, []) of
                None \<Rightarrow> None
              | Some (assignments1, changed1, terms) \<Rightarrow>
                  (case extract_pivots (simplify (Or_new terms) assignments1) of
                     None \<Rightarrow> None
                   | Some d_pivots \<Rightarrow> Some (fold narrow_step d_pivots (assignments1, changed1))))))"

text \<open>One run of the body of \<open>while something_changed\<close>.\<close>

definition one_pass :: "solver \<Rightarrow> assignments \<Rightarrow> (assignments \<times> bool) option" where
  "one_pass S assignments = foldM (var_step S) (variables S) (assignments, False)"

function fixpoint_loop :: "solver \<Rightarrow> assignments \<Rightarrow> assignments option" where
  "fixpoint_loop S assignments =
     (case one_pass S assignments of
        None \<Rightarrow> None
      | Some (assignments', something_changed) \<Rightarrow>
          if something_changed then fixpoint_loop S assignments' else Some assignments')"
  by pat_completeness auto

text \<open>The assignment of \<open>solve\<close> before and after the ground truth has narrowed it.\<close>

definition start_assignments :: "solver \<Rightarrow> assignments option" where
  "start_assignments S = init_assignments (complete S) (variables S) []"

definition ground_assignments :: "solver \<Rightarrow> assignments option" where
  "ground_assignments S =
     (case start_assignments S of
        None \<Rightarrow> None
      | Some assignments \<Rightarrow>
          (case extract_pivots (simplify (ground_truth S) assignments) of
             None \<Rightarrow> None
           | Some ground_pivots \<Rightarrow> Some (fold ground_step ground_pivots assignments)))"

definition solve :: "solver \<Rightarrow> assignments option" where
  "solve S =
     (case ground_assignments S of
        None \<Rightarrow> None
      | Some assignments \<Rightarrow> fixpoint_loop (complete S) assignments)"

section \<open>Notions used in the proofs\<close>

text \<open>The total number of candidate values in an assignment: the measure of the loop.\<close>

definition weight :: "assignments \<Rightarrow> nat" where
  "weight a = sum_list (map (\<lambda>e. card (set (snd e))) a)"

text \<open>
  What \<open>__new__\<close> guarantees of every node it returns: an \<open>And\<close> or \<open>Or\<close> node has two
  or more children, none of its own kind, each of them such a node in turn.
\<close>

fun is_And :: "bterm \<Rightarrow> bool" where
  "is_And (And es) = True"
| "is_And _ = False"

fun is_Or :: "bterm \<Rightarrow> bool" where
  "is_Or (Or es) = True"
| "is_Or _ = False"

fun wf_term :: "bterm \<Rightarrow> bool" where
  "wf_term TRUE = True"
| "wf_term FALSE = True"
| "wf_term (Eq l r) = True"
| "wf_term (And es) = (2 \<le> length es \<and> (\<forall>e\<in>set es. \<not> is_And e \<and> wf_term e))"
| "wf_term (Or es) = (2 \<le> length es \<and> (\<forall>e\<in>set es. \<not> is_Or e \<and> wf_term e))"

text \<open>
  The terms that calls of the three classes can build from the two constants, whatever
  the frozensets inside \<open>__new__\<close> take for one element.
\<close>

inductive constructible :: "bterm \<Rightarrow> bool" where
  c_TRUE: "constructible TRUE"
| c_FALSE: "constructible FALSE"
| c_Eq: "constructible (Eq_new left right)"
| c_And: "(\<forall>e\<in>set exprs. constructible e)
      \<Longrightarrow> frozenset_of (concat (map And_flatten exprs)) frozen
      \<Longrightarrow> constructible (And_of frozen)"
| c_Or: "(\<forall>e\<in>set exprs. constructible e)
      \<Longrightarrow> frozenset_of (concat (map Or_flatten exprs)) frozen
      \<Longrightarrow> constructible (Or_of frozen)"

text \<open>
  The invariant of constructed nodes. The list of an \<open>And\<close> or \<open>Or\<close> node has one entry for
  each element of \<open>exprs\<close>: it has two or more entries, no leaf twice (entries that are
  equal compound terms are different objects), no entry of the node's own kind and
  neither constant, and every entry has the invariant in turn.
\<close>

fun node_ok :: "bterm \<Rightarrow> bool" where
  "node_ok TRUE = True"
| "node_ok FALSE = True"
| "node_ok (Eq l r) = True"
| "node_ok (And es) =
     (2 \<le> length es \<and> distinct (filter (\<lambda>e. \<not> is_compound e) es)
      \<and> (\<forall>e\<in>set es. \<not> is_And e \<and> e \<noteq> TRUE \<and> e \<noteq> FALSE \<and> node_ok e))"
| "node_ok (Or es) =
     (2 \<le> length es \<and> distinct (filter (\<lambda>e. \<not> is_compound e) es)
      \<and> (\<forall>e\<in>set es. \<not> is_Or e \<and> e \<noteq> TRUE \<and> e \<noteq> FALSE \<and> node_ok e))"

text \<open>
  The reference for pivot extraction over compound terms, in the words of the
  specification. \<open>bounds children name\<close> lists the candidate sets that the children's
  pivot dicts give for \<open>name\<close>. For \<open>And\<close>: the keys are the union of the children's keys,
  and a key is mapped to the intersection of its candidate sets. For \<open>Or\<close>: the keys are
  the intersection of the children's keys, and a key is mapped to the union of its
  candidate sets across all children.
\<close>

definition bounds :: "pivots list \<Rightarrow> string \<Rightarrow> string set list" where
  "bounds children name = List.map_filter (\<lambda>p. map_of p name) children"

definition and_pivots_spec :: "pivots list \<Rightarrow> string \<Rightarrow> string set option" where
  "and_pivots_spec children name =
     (if list_ex (\<lambda>p. name \<in> fst ` set p) children
      then Some (\<Inter> (set (bounds children name)))
      else None)"

definition or_pivots_spec :: "pivots list \<Rightarrow> string \<Rightarrow> string set option" where
  "or_pivots_spec children name =
     (if list_all (\<lambda>p. name \<in> fst ` set p) children
      then Some (\<Union> (set (bounds children name)))
      else None)"

text \<open>
  One candidate list has shrunk to another: nothing was added, and no element was
  duplicated. \<open>le_asg a' a\<close>: the two dicts have the same keys, and each entry of \<open>a'\<close> has
  shrunk from the entry of \<open>a\<close>.
\<close>

definition sub_cands :: "string list \<Rightarrow> string list \<Rightarrow> bool" where
  "sub_cands cs' cs = (set cs' \<subseteq> set cs \<and> (distinct cs \<longrightarrow> distinct cs'))"

definition le_asg :: "assignments \<Rightarrow> assignments \<Rightarrow> bool" where
  "le_asg a' a = (\<forall>k. rel_option sub_cands (map_of a' k) (map_of a k))"

text \<open>
  The assignment after \<open>n\<close> runs of the body of \<open>while something_changed\<close>. The loop makes
  as many runs as the flag allows; \<open>passes\<close> makes \<open>n\<close> whatever the flag says, so the
  assignments the loop goes through are among those \<open>passes\<close> goes through.
\<close>

fun passes :: "solver \<Rightarrow> nat \<Rightarrow> assignments \<Rightarrow> assignments option" where
  "passes S 0 a = Some a"
| "passes S (Suc n) a =
     (case one_pass S a of None \<Rightarrow> None | Some (a', something_changed) \<Rightarrow> passes S n a')"

text \<open>
  What holds of the solver's state while \<open>solve\<close> runs: after \<open>_complete\<close> every pair of a
  variable and a value has an implication (\<open>imps_ok\<close>); every candidate list is free of
  duplicates and holds registered values only (\<open>entries_ok\<close>); every variable is a key of
  the assignment (\<open>asg_ok\<close>).
\<close>

definition imps_ok :: "solver \<Rightarrow> bool" where
  "imps_ok S =
     (\<forall>var\<in>set (variables S). \<forall>v\<in>set (values' S). implications S (Eq_new var v) \<noteq> None)"

definition entries_ok :: "solver \<Rightarrow> assignments \<Rightarrow> bool" where
  "entries_ok S a = (\<forall>k cs. map_of a k = Some cs \<longrightarrow> distinct cs \<and> set cs \<subseteq> set (values' S))"

definition asg_ok :: "solver \<Rightarrow> assignments \<Rightarrow> bool" where
  "asg_ok S a = ((\<forall>var\<in>set (variables S). map_of a var \<noteq> None) \<and> entries_ok S a)"

section \<open>Termination of the fixpoint loop\<close>

text \<open>
  Every step of a pass leaves the number of candidates the same or smaller, and a step
  that sets \<open>something_changed\<close> makes it smaller; so a pass that reports a change has
  removed a candidate, and the \<open>while\<close> loop ends.
\<close>

lemma weight_update:
  "map_of al k = Some old \<Longrightarrow>
   weight (AList.update k new al) + card (set old) = weight al + card (set new)"
  by (induction al) (auto simp: weight_def)

lemma card_filter_le: "card (set (filter P xs)) \<le> card (set xs)"
  by (simp add: card_mono)

lemma card_removeAll_less: "v \<in> set xs \<Longrightarrow> card (set (removeAll v xs)) < card (set xs)"
  using card_Diff1_less[of "set xs" v] by simp

lemma set_remove_weight:
  "set_remove a var v = Some a' \<Longrightarrow> weight a' < weight a"
proof -
  assume "set_remove a var v = Some a'"
  then obtain cands where m: "map_of a var = Some cands" and v: "v \<in> set cands"
    and a': "a' = AList.update var (removeAll v cands) a"
    by (auto simp: set_remove_def split: option.splits if_splits)
  from weight_update[OF m, of "removeAll v cands"] card_removeAll_less[OF v]
  show ?thesis by (simp add: a')
qed

lemma check_value_weight:
  "check_value S var v (a, c, ts) = Some (a', c', ts') \<Longrightarrow>
   weight a' \<le> weight a \<and> (c' \<longrightarrow> c \<or> weight a' < weight a)"
  by (auto split: option.splits if_splits dest: set_remove_weight)

lemma foldM_check_value_weight:
  "foldM (check_value S var) vs (a, c, ts) = Some (a', c', ts') \<Longrightarrow>
   weight a' \<le> weight a \<and> (c' \<longrightarrow> c \<or> weight a' < weight a)"
proof (induction vs arbitrary: a c ts)
  case Nil
  then show ?case by simp
next
  case (Cons v vs)
  from Cons.prems obtain a1 c1 ts1 where
    s1: "check_value S var v (a, c, ts) = Some (a1, c1, ts1)"
    and s2: "foldM (check_value S var) vs (a1, c1, ts1) = Some (a', c', ts')"
    by (auto split: option.splits)
  from check_value_weight[OF s1] Cons.IH[OF s2] show ?case by auto
qed

lemma narrow_step_weight:
  "narrow_step p (a, c) = (a', c') \<Longrightarrow>
   weight a' \<le> weight a \<and> (c' \<longrightarrow> c \<or> weight a' < weight a)"
proof (cases p)
  case (Pair pivot possible)
  assume st: "narrow_step p (a, c) = (a', c')"
  show ?thesis
  proof (cases "map_of a pivot")
    case None
    with st Pair show ?thesis by simp
  next
    case (Some cands)
    let ?new = "filter (\<lambda>v. v \<in> possible) cands"
    from st Pair Some have a': "a' = AList.update pivot ?new a"
      and c': "c' = (c \<or> card (set cands) \<noteq> card (set ?new))"
      by (auto simp: Let_def)
    from weight_update[OF Some, of ?new]
    have "weight a' + card (set cands) = weight a + card (set ?new)" by (simp add: a')
    moreover have "card (set ?new) \<le> card (set cands)" by (rule card_filter_le)
    ultimately show ?thesis using c' by auto
  qed
qed

lemma fold_narrow_step_weight:
  "fold narrow_step ps (a, c) = (a', c') \<Longrightarrow>
   weight a' \<le> weight a \<and> (c' \<longrightarrow> c \<or> weight a' < weight a)"
proof (induction ps arbitrary: a c)
  case Nil
  then show ?case by simp
next
  case (Cons p ps)
  obtain a1 c1 where s1: "narrow_step p (a, c) = (a1, c1)" by fastforce
  with Cons.prems have s2: "fold narrow_step ps (a1, c1) = (a', c')" by simp
  from narrow_step_weight[OF s1] Cons.IH[OF s2] show ?case by auto
qed

lemma var_step_weight:
  "var_step S var (a, c) = Some (a', c') \<Longrightarrow>
   weight a' \<le> weight a \<and> (c' \<longrightarrow> c \<or> weight a' < weight a)"
proof -
  assume st: "var_step S var (a, c) = Some (a', c')"
  then obtain cands a1 c1 ts d where
    f: "foldM (check_value S var) cands (a, c, []) = Some (a1, c1, ts)"
    and n: "fold narrow_step d (a1, c1) = (a', c')"
    by (auto simp: var_step_def split: option.splits)
  from foldM_check_value_weight[OF f] fold_narrow_step_weight[OF n] show ?thesis by auto
qed

lemma foldM_var_step_weight:
  "foldM (var_step S) vars (a, c) = Some (a', c') \<Longrightarrow>
   weight a' \<le> weight a \<and> (c' \<longrightarrow> c \<or> weight a' < weight a)"
proof (induction vars arbitrary: a c)
  case Nil
  then show ?case by simp
next
  case (Cons v vars)
  from Cons.prems obtain a1 c1 where
    s1: "var_step S v (a, c) = Some (a1, c1)"
    and s2: "foldM (var_step S) vars (a1, c1) = Some (a', c')"
    by (auto split: option.splits)
  from var_step_weight[OF s1] Cons.IH[OF s2] show ?case by auto
qed

lemma one_pass_weight:
  "one_pass S a = Some (a', True) \<Longrightarrow> weight a' < weight a"
  using foldM_var_step_weight[of S "variables S" a False a' True] by (simp add: one_pass_def)

termination fixpoint_loop
  by (relation "measure (\<lambda>(S, a). weight a)") (auto dest: one_pass_weight)

section \<open>The term constructors\<close>

lemma Eq_new_cases: "Eq_new a b = (if a = b then TRUE else Eq (max a b) (min a b))"
  by (auto simp: Eq_new_def max_def min_def)

lemma wf_Eq_new: "wf_term (Eq_new a b)"
  by (simp add: Eq_new_cases)

lemma And_flatten_wf:
  "wf_term t \<Longrightarrow> e \<in> set (And_flatten t) \<Longrightarrow> \<not> is_And e \<and> wf_term e"
  by (cases t) auto

lemma Or_flatten_wf:
  "wf_term t \<Longrightarrow> e \<in> set (Or_flatten t) \<Longrightarrow> \<not> is_Or e \<and> wf_term e"
  by (cases t) auto

lemma wf_pick:
  assumes "\<forall>e\<in>set xs. wf_term e"
  shows "wf_term (case xs of expr # _ \<Rightarrow> expr | [] \<Rightarrow> c) = (xs = [] \<longrightarrow> wf_term c)"
  using assms by (cases xs) auto

lemma wf_And_new:
  assumes "\<forall>e\<in>set exprs. wf_term e"
  shows "wf_term (And_new exprs)"
proof -
  let ?xs = "removeAll TRUE (remdups (concat (map And_flatten exprs)))"
  have el: "\<forall>e\<in>set ?xs. \<not> is_And e \<and> wf_term e"
    using assms And_flatten_wf by auto
  have "wf_term (case ?xs of expr # _ \<Rightarrow> expr | [] \<Rightarrow> TRUE)"
    using el by (simp add: wf_pick)
  with el show ?thesis by (simp add: And_new_def Let_def)
qed

lemma wf_Or_new:
  assumes "\<forall>e\<in>set exprs. wf_term e"
  shows "wf_term (Or_new exprs)"
proof -
  let ?xs = "removeAll FALSE (remdups (concat (map Or_flatten exprs)))"
  have el: "\<forall>e\<in>set ?xs. \<not> is_Or e \<and> wf_term e"
    using assms Or_flatten_wf by auto
  have "wf_term (case ?xs of expr # _ \<Rightarrow> expr | [] \<Rightarrow> FALSE)"
    using el by (simp add: wf_pick)
  with el show ?thesis by (simp add: Or_new_def Let_def)
qed

lemma wf_simplify: "wf_term (simplify t a)"
proof (induction t a rule: simplify.induct)
  case (3 left right assignments)
  show ?case
    by (auto simp: Let_def intro!: wf_Or_new wf_And_new wf_Eq_new)
next
  case (4 exprs assignments)
  then show ?case by (auto intro!: wf_And_new)
next
  case (5 exprs assignments)
  then show ?case by (auto intro!: wf_Or_new)
qed simp_all

lemma flatten_id_And: "\<forall>e\<in>set xs. \<not> is_And e \<Longrightarrow> concat (map And_flatten xs) = xs"
proof (induction xs)
  case (Cons x xs)
  then show ?case by (cases x) auto
qed simp

lemma flatten_id_Or: "\<forall>e\<in>set xs. \<not> is_Or e \<Longrightarrow> concat (map Or_flatten xs) = xs"
proof (induction xs)
  case (Cons x xs)
  then show ?case by (cases x) auto
qed simp

lemma And_new_And_of: "And_new exprs = And_of (remdups (concat (map And_flatten exprs)))"
  by (simp add: And_new_def And_of_def)

lemma Or_new_Or_of: "Or_new exprs = Or_of (remdups (concat (map Or_flatten exprs)))"
  by (simp add: Or_new_def Or_of_def)

lemma count_list_distinct: "distinct ys \<Longrightarrow> count_list ys e \<le> 1"
  by (induction ys) auto

lemma frozenset_of_remdups: "frozenset_of xs (remdups xs)"
proof -
  have "count_list (remdups xs) e \<le> count_list xs e" if "e \<in> set xs" for e
  proof -
    have "count_list (remdups xs) e \<le> 1"
      by (rule count_list_distinct) simp
    moreover from that have "count_list xs e \<noteq> 0" by (simp add: count_list_0_iff)
    ultimately show ?thesis by simp
  qed
  then show ?thesis by (simp add: frozenset_of_def list_all_iff)
qed

lemma constructible_And_new:
  assumes "\<forall>e\<in>set exprs. constructible e"
  shows "constructible (And_new exprs)"
  unfolding And_new_And_of using assms frozenset_of_remdups by (rule c_And)

lemma constructible_Or_new:
  assumes "\<forall>e\<in>set exprs. constructible e"
  shows "constructible (Or_new exprs)"
  unfolding Or_new_Or_of using assms frozenset_of_remdups by (rule c_Or)

lemma And_flatten_ok:
  "node_ok t \<Longrightarrow> e \<in> set (And_flatten t) \<Longrightarrow> \<not> is_And e \<and> node_ok e"
  by (cases t) auto

lemma Or_flatten_ok:
  "node_ok t \<Longrightarrow> e \<in> set (Or_flatten t) \<Longrightarrow> \<not> is_Or e \<and> node_ok e"
  by (cases t) auto

lemma leaves_removeAll:
  "distinct (filter (\<lambda>e. \<not> is_compound e) ys)
   \<Longrightarrow> distinct (filter (\<lambda>e. \<not> is_compound e) (removeAll c ys))"
  by (induction ys) auto

lemma node_ok_pick:
  assumes "\<forall>e\<in>set xs. node_ok e"
  shows "node_ok (case xs of expr # _ \<Rightarrow> expr | [] \<Rightarrow> c) = (xs = [] \<longrightarrow> node_ok c)"
  using assms by (cases xs) auto

lemma node_ok_And_of:
  assumes "\<forall>e\<in>set frozen. \<not> is_And e \<and> node_ok e"
    and "distinct (filter (\<lambda>e. \<not> is_compound e) frozen)"
  shows "node_ok (And_of frozen)"
proof -
  let ?xs = "removeAll TRUE frozen"
  have el: "\<forall>e\<in>set ?xs. \<not> is_And e \<and> e \<noteq> TRUE \<and> node_ok e"
    using assms(1) by auto
  have d: "distinct (filter (\<lambda>e. \<not> is_compound e) ?xs)"
    using assms(2) by (rule leaves_removeAll)
  have p: "node_ok (case ?xs of expr # _ \<Rightarrow> expr | [] \<Rightarrow> TRUE)"
    using el by (simp add: node_ok_pick)
  show ?thesis
  proof (cases "FALSE \<in> set ?xs")
    case True
    then show ?thesis by (simp add: And_of_def)
  next
    case False
    with el have "\<forall>e\<in>set ?xs. \<not> is_And e \<and> e \<noteq> TRUE \<and> e \<noteq> FALSE \<and> node_ok e"
      by blast
    with False d p show ?thesis by (simp add: And_of_def Let_def)
  qed
qed

lemma node_ok_Or_of:
  assumes "\<forall>e\<in>set frozen. \<not> is_Or e \<and> node_ok e"
    and "distinct (filter (\<lambda>e. \<not> is_compound e) frozen)"
  shows "node_ok (Or_of frozen)"
proof -
  let ?xs = "removeAll FALSE frozen"
  have el: "\<forall>e\<in>set ?xs. \<not> is_Or e \<and> e \<noteq> FALSE \<and> node_ok e"
    using assms(1) by auto
  have d: "distinct (filter (\<lambda>e. \<not> is_compound e) ?xs)"
    using assms(2) by (rule leaves_removeAll)
  have p: "node_ok (case ?xs of expr # _ \<Rightarrow> expr | [] \<Rightarrow> FALSE)"
    using el by (simp add: node_ok_pick)
  show ?thesis
  proof (cases "TRUE \<in> set ?xs")
    case True
    then show ?thesis by (simp add: Or_of_def)
  next
    case False
    with el have "\<forall>e\<in>set ?xs. \<not> is_Or e \<and> e \<noteq> TRUE \<and> e \<noteq> FALSE \<and> node_ok e"
      by blast
    with False d p show ?thesis by (simp add: Or_of_def Let_def)
  qed
qed

lemma node_ok_wf_term: "node_ok t \<Longrightarrow> wf_term t"
  by (induction t rule: wf_term.induct) auto

text \<open>
  C7. Every term that can be built by calling \<open>Eq\<close>, \<open>And\<close> and \<open>Or\<close> on labels, on the two
  constants and on terms built before, whichever of the equal compound children the
  frozensets keep apart, has the invariant \<open>node_ok\<close>: each \<open>And\<close> and \<open>Or\<close> node in it has at
  least two children (no leaf among them counted twice), no child of its own kind and no
  constant child.
\<close>

theorem C7_constructed_terms_wf: "constructible t \<Longrightarrow> node_ok t"
proof (induction t rule: constructible.induct)
  case (c_Eq left right)
  show ?case by (simp add: Eq_new_cases)
next
  case (c_And exprs frozen)
  from c_And.IH have "\<forall>e\<in>set (concat (map And_flatten exprs)). \<not> is_And e \<and> node_ok e"
    using And_flatten_ok by auto
  with c_And.hyps have "\<forall>e\<in>set frozen. \<not> is_And e \<and> node_ok e"
    by (simp add: frozenset_of_def)
  moreover from c_And.hyps have "distinct (filter (\<lambda>e. \<not> is_compound e) frozen)"
    by (simp add: frozenset_of_def)
  ultimately show ?case by (rule node_ok_And_of)
next
  case (c_Or exprs frozen)
  from c_Or.IH have "\<forall>e\<in>set (concat (map Or_flatten exprs)). \<not> is_Or e \<and> node_ok e"
    using Or_flatten_ok by auto
  with c_Or.hyps have "\<forall>e\<in>set frozen. \<not> is_Or e \<and> node_ok e"
    by (simp add: frozenset_of_def)
  moreover from c_Or.hyps have "distinct (filter (\<lambda>e. \<not> is_compound e) frozen)"
    by (simp add: frozenset_of_def)
  ultimately show ?case by (rule node_ok_Or_of)
qed simp_all

text \<open>
  Two instances. The first is built with \<open>And_new\<close> and \<open>Or_new\<close>. In the second, \<open>Or\<close> is
  called on two equal \<open>And\<close> nodes that are different objects: the frozenset keeps both,
  and the node has two children.
\<close>

theorem C7_witness:
  "constructible (Or_new [Eq_new ''t'' ''v1'', And_new [Eq_new ''t'' ''v2'', Eq_new ''u'' ''v3'']])
   \<and> node_ok (Or_new [Eq_new ''t'' ''v1'', And_new [Eq_new ''t'' ''v2'', Eq_new ''u'' ''v3'']])
   \<and> Or_new [Eq_new ''t'' ''v1'', And_new [Eq_new ''t'' ''v2'', Eq_new ''u'' ''v3'']]
       = Or [Eq ''v1'' ''t'', And [Eq ''v2'' ''t'', Eq ''v3'' ''u'']]
   \<and> frozenset_of
         (concat (map Or_flatten [And [Eq ''v2'' ''t'', Eq ''v3'' ''u''],
                                  And [Eq ''v2'' ''t'', Eq ''v3'' ''u'']]))
         [And [Eq ''v2'' ''t'', Eq ''v3'' ''u''], And [Eq ''v2'' ''t'', Eq ''v3'' ''u'']]
   \<and> Or_of [And [Eq ''v2'' ''t'', Eq ''v3'' ''u''], And [Eq ''v2'' ''t'', Eq ''v3'' ''u'']]
       = Or [And [Eq ''v2'' ''t'', Eq ''v3'' ''u''], And [Eq ''v2'' ''t'', Eq ''v3'' ''u'']]
   \<and> constructible (Or [And [Eq ''v2'' ''t'', Eq ''v3'' ''u''], And [Eq ''v2'' ''t'', Eq ''v3'' ''u'']])
   \<and> node_ok (Or [And [Eq ''v2'' ''t'', Eq ''v3'' ''u''], And [Eq ''v2'' ''t'', Eq ''v3'' ''u'']])"
proof -
  let ?A = "And [Eq ''v2'' ''t'', Eq ''v3'' ''u'']"
  have a: "And_new [Eq_new ''t'' ''v2'', Eq_new ''u'' ''v3''] = ?A" by code_simp
  have ca: "constructible ?A"
    unfolding a[symmetric] by (rule constructible_And_new) (simp add: c_Eq)
  have c: "constructible (Or_new [Eq_new ''t'' ''v1'', And_new [Eq_new ''t'' ''v2'', Eq_new ''u'' ''v3'']])"
    unfolding a using ca by (intro constructible_Or_new) (simp add: c_Eq)
  have e: "Or_new [Eq_new ''t'' ''v1'', And_new [Eq_new ''t'' ''v2'', Eq_new ''u'' ''v3'']]
       = Or [Eq ''v1'' ''t'', ?A]"
    by code_simp
  have f: "frozenset_of (concat (map Or_flatten [?A, ?A])) [?A, ?A]"
    by (simp add: frozenset_of_def)
  have o: "Or_of [?A, ?A] = Or [?A, ?A]" by (simp add: Or_of_def)
  have c2: "constructible (Or [?A, ?A])"
    unfolding o[symmetric] using f by (intro c_Or[of "[?A, ?A]"]) (simp add: ca)
  from c e f o c2 C7_constructed_terms_wf[OF c] C7_constructed_terms_wf[OF c2]
  show ?thesis by simp
qed

text \<open>
  C9. \<open>Eq(a, b)\<close> and \<open>Eq(b, a)\<close> are the same term: they carry the same \<open>(left, right)\<close>
  tuple, which is what \<open>__hash__\<close> hashes, and \<open>__eq__\<close> holds between them when they are
  \<open>Eq\<close> nodes; the larger label is \<open>left\<close>. \<open>Eq(a, a)\<close> is \<open>TRUE\<close>, and no call of \<open>Eq\<close>
  returns a node with equal sides.
\<close>

theorem C9_Eq_symmetry:
  "Eq_new a b = Eq_new b a
   \<and> Eq_hash_key (Eq_new a b) = Eq_hash_key (Eq_new b a)
   \<and> (a = b \<or> Eq_eq (Eq_new a b) (Eq_new b a))
   \<and> Eq_new a b = (if a = b then TRUE else Eq (max a b) (min a b))
   \<and> Eq_new a a = TRUE
   \<and> Eq_new a b \<noteq> Eq c c"
  by (auto simp: Eq_new_cases max_def min_def)


text \<open>
  C8, as the code has it. A list of two or more pairwise different terms that holds
  neither constant and no \<open>And\<close> node is returned by \<open>And\<close> as the children of an \<open>And\<close>
  node, unchanged; likewise for \<open>Or\<close>. The constants have to be excluded: \<open>And\<close> drops
  \<open>TRUE\<close> and collapses to \<open>FALSE\<close>, \<open>Or\<close> drops \<open>FALSE\<close> and collapses to \<open>TRUE\<close>.
\<close>

theorem C8_idempotent_normalization:
  assumes "distinct exprs" and "2 \<le> length exprs"
    and "TRUE \<notin> set exprs" and "FALSE \<notin> set exprs"
  shows "((\<forall>e\<in>set exprs. \<not> is_And e) \<longrightarrow> And_new exprs = And exprs)
       \<and> ((\<forall>e\<in>set exprs. \<not> is_Or e) \<longrightarrow> Or_new exprs = Or exprs)"
  using assms
  by (auto simp: And_new_def Or_new_def flatten_id_And flatten_id_Or Let_def distinct_remdups_id)

text \<open>
  Without that exclusion the statement fails: \<open>{TRUE, Eq(b, a)}\<close> has two different
  members and no \<open>And\<close> node, yet \<open>And\<close> returns the bare \<open>Eq(b, a)\<close>.
\<close>

theorem C8_counterexample:
  "distinct [TRUE, Eq ''b'' ''a''] \<and> 2 \<le> length [TRUE, Eq ''b'' ''a'']
   \<and> \<not> is_And TRUE \<and> \<not> is_And (Eq ''b'' ''a'')
   \<and> And_new [TRUE, Eq ''b'' ''a''] = Eq ''b'' ''a''
   \<and> \<not> is_And (And_new [TRUE, Eq ''b'' ''a''])"
  by (simp add: And_new_def)

theorem C8_witness:
  "distinct [Eq ''b'' ''a'', Eq ''d'' ''c''] \<and> 2 \<le> length [Eq ''b'' ''a'', Eq ''d'' ''c'']
   \<and> TRUE \<notin> set [Eq ''b'' ''a'', Eq ''d'' ''c''] \<and> FALSE \<notin> set [Eq ''b'' ''a'', Eq ''d'' ''c'']
   \<and> And_new [Eq ''b'' ''a'', Eq ''d'' ''c''] = And [Eq ''b'' ''a'', Eq ''d'' ''c'']
   \<and> Or_new [Eq ''b'' ''a'', Eq ''d'' ''c''] = Or [Eq ''b'' ''a'', Eq ''d'' ''c'']"
  using C8_idempotent_normalization[of "[Eq ''b'' ''a'', Eq ''d'' ''c'']"] by simp

section \<open>Pivot extraction against its reference\<close>

lemma those_eq_Some: "those xs = Some ys \<longleftrightarrow> xs = map Some ys"
proof (induction xs arbitrary: ys)
  case Nil
  show ?case by auto
next
  case (Cons x xs)
  show ?case
  proof (cases x)
    case None
    then show ?thesis by auto
  next
    case (Some y)
    with Cons.IH show ?thesis by (cases ys) auto
  qed
qed

lemma key_iff: "k \<in> fst ` set p \<longleftrightarrow> map_of p k \<noteq> None"
  by (simp add: map_of_eq_None_iff)

lemma and_merge_map_of:
  "map_of (and_merge (n, vs) acc) =
     (map_of acc)(n \<mapsto> (case map_of acc n of None \<Rightarrow> vs | Some old \<Rightarrow> old \<inter> vs))"
  by (simp add: update_conv' split: option.splits)

lemma and_merge_distinct:
  "distinct (map fst acc) \<Longrightarrow> distinct (map fst (and_merge e acc))"
  by (cases e) (simp add: distinct_update split: option.splits)

lemma fold_and_merge_distinct:
  "distinct (map fst acc) \<Longrightarrow> distinct (map fst (fold and_merge p acc))"
  by (induction p arbitrary: acc) (simp_all add: and_merge_distinct)

lemma fold_and_merge_map_of:
  "distinct (map fst p) \<Longrightarrow>
   map_of (fold and_merge p acc) k =
     (case map_of p k of
        None \<Rightarrow> map_of acc k
      | Some vs \<Rightarrow> Some (case map_of acc k of None \<Rightarrow> vs | Some old \<Rightarrow> old \<inter> vs))"
proof (induction p arbitrary: acc)
  case Nil
  show ?case by simp
next
  case (Cons e p)
  obtain n vs where e: "e = (n, vs)" by (cases e)
  from Cons.prems e have d: "distinct (map fst p)" and n: "map_of p n = None"
    by (auto simp: map_of_eq_None_iff)
  have "map_of (fold and_merge p (and_merge (n, vs) acc)) k =
     (case map_of p k of
        None \<Rightarrow> map_of (and_merge (n, vs) acc) k
      | Some vs' \<Rightarrow> Some (case map_of (and_merge (n, vs) acc) k of
                             None \<Rightarrow> vs' | Some old \<Rightarrow> old \<inter> vs'))"
    by (rule Cons.IH[OF d])
  then show ?case using n
    by (auto simp: e and_merge_map_of simp del: and_merge.simps split: option.splits)
qed

lemma and_loop_distinct:
  "and_loop rs acc = Some m \<Longrightarrow> distinct (map fst acc) \<Longrightarrow> distinct (map fst m)"
  by (induction rs acc rule: and_loop.induct) (auto simp: fold_and_merge_distinct)

lemma and_loop_map_of:
  "\<forall>p\<in>set ps. distinct (map fst p) \<Longrightarrow>
   \<exists>m. and_loop (map Some ps) acc = Some m \<and>
       (\<forall>k. map_of m k =
          (case map_of acc k of
             None \<Rightarrow> (if list_ex (\<lambda>p. k \<in> fst ` set p) ps
                       then Some (\<Inter> (set (bounds ps k))) else None)
           | Some old \<Rightarrow> Some (old \<inter> \<Inter> (set (bounds ps k)))))"
proof (induction ps arbitrary: acc)
  case Nil
  show ?case by (auto simp: bounds_def split: option.splits)
next
  case (Cons p ps)
  from Cons.prems have dp: "distinct (map fst p)" and dps: "\<forall>p\<in>set ps. distinct (map fst p)"
    by auto
  from Cons.IH[OF dps, of "fold and_merge p acc"] obtain m where
    m: "and_loop (map Some ps) (fold and_merge p acc) = Some m"
    and sem: "\<And>k. map_of m k =
          (case map_of (fold and_merge p acc) k of
             None \<Rightarrow> (if list_ex (\<lambda>p. k \<in> fst ` set p) ps
                       then Some (\<Inter> (set (bounds ps k))) else None)
           | Some old \<Rightarrow> Some (old \<inter> \<Inter> (set (bounds ps k))))"
    by blast
  have "map_of m k =
          (case map_of acc k of
             None \<Rightarrow> (if list_ex (\<lambda>p. k \<in> fst ` set p) (p # ps)
                       then Some (\<Inter> (set (bounds (p # ps) k))) else None)
           | Some old \<Rightarrow> Some (old \<inter> \<Inter> (set (bounds (p # ps) k))))" for k
    unfolding sem[of k] fold_and_merge_map_of[OF dp]
    by (auto simp: bounds_def key_iff split: option.splits)
  with m show ?case by simp
qed

lemma or_keys_set:
  "set (or_keys p0 rest) = {k. \<forall>p\<in>set (p0 # rest). k \<in> fst ` set p}"
proof -
  have "set (fold (\<lambda>p i. filter (\<lambda>k. k \<in> fst ` set p) i) rest ks)
        = {k \<in> set ks. \<forall>p\<in>set rest. k \<in> fst ` set p}" for ks
    by (induction rest arbitrary: ks) auto
  then show ?thesis by (auto simp: or_keys_def)
qed

lemma or_values_Some:
  "\<forall>p\<in>set ps. k \<in> fst ` set p \<Longrightarrow>
   or_values ps k vs = Some (vs \<union> \<Union> (set (bounds ps k)))"
proof (induction ps arbitrary: vs)
  case Nil
  show ?case by (simp add: bounds_def)
next
  case (Cons p ps)
  from Cons.prems obtain s where s: "map_of p k = Some s" by (auto simp: key_iff)
  from Cons.prems have "\<forall>p\<in>set ps. k \<in> fst ` set p" by simp
  from Cons.IH[OF this] s show ?case by (auto simp: bounds_def)
qed

lemma or_collect_Some:
  "\<forall>k\<in>set ks. \<forall>p\<in>set ps. k \<in> fst ` set p \<Longrightarrow> distinct (map fst acc) \<Longrightarrow>
   \<exists>m. or_collect ps ks acc = Some m \<and> distinct (map fst m) \<and>
       (\<forall>k. map_of m k =
          (if k \<in> set ks then Some (\<Union> (set (bounds ps k))) else map_of acc k))"
proof (induction ks arbitrary: acc)
  case Nil
  then show ?case by simp
next
  case (Cons k ks)
  let ?acc = "AList.update k (\<Union> (set (bounds ps k))) acc"
  from Cons.prems have v: "or_values ps k {} = Some (\<Union> (set (bounds ps k)))"
    using or_values_Some[of ps k "{}"] by simp
  from Cons.prems have "\<forall>k\<in>set ks. \<forall>p\<in>set ps. k \<in> fst ` set p" by simp
  from Cons.IH[OF this, of ?acc] Cons.prems(2) obtain m where
    m: "or_collect ps ks ?acc = Some m" and d: "distinct (map fst m)"
    and sem: "\<And>k'. map_of m k' =
          (if k' \<in> set ks then Some (\<Union> (set (bounds ps k'))) else map_of ?acc k')"
    by (auto simp: distinct_update)
  from m v d sem show ?case by (auto simp: update_conv')
qed

lemma or_pivots_Some:
  assumes "ps \<noteq> []"
  shows "\<exists>m. or_pivots (map Some ps) = Some m \<and> distinct (map fst m) \<and>
       map_of m = or_pivots_spec ps"
proof -
  from assms obtain p0 rest where ps: "ps = p0 # rest" by (cases ps) auto
  have th: "those (map Some ps) = Some ps" by (simp add: those_eq_Some)
  have "\<forall>k\<in>set (or_keys p0 rest). \<forall>p\<in>set ps. k \<in> fst ` set p"
    by (simp add: or_keys_set ps)
  from or_collect_Some[OF this, of "[]"] obtain m where
    m: "or_collect ps (or_keys p0 rest) [] = Some m" and d: "distinct (map fst m)"
    and sem: "\<And>k. map_of m k =
          (if k \<in> set (or_keys p0 rest) then Some (\<Union> (set (bounds ps k))) else None)"
    by auto
  have "map_of m k = or_pivots_spec ps k" for k
    unfolding sem or_pivots_spec_def by (simp add: or_keys_set ps list_all_iff)
  with m d th show ?thesis by (auto simp: or_pivots_def ps)
qed

lemma and_pivots_Some:
  assumes "\<forall>p\<in>set ps. distinct (map fst p)"
  shows "\<exists>m. and_loop (map Some ps) [] = Some m \<and> distinct (map fst m) \<and>
       map_of m = and_pivots_spec ps"
proof -
  from and_loop_map_of[OF assms, of "[]"] obtain m where
    m: "and_loop (map Some ps) [] = Some m"
    and sem: "\<And>k. map_of m k = (if list_ex (\<lambda>p. k \<in> fst ` set p) ps
                       then Some (\<Inter> (set (bounds ps k))) else None)"
    by auto
  have "map_of m k = and_pivots_spec ps k" for k
    unfolding sem and_pivots_spec_def by simp
  with m and_loop_distinct[OF m] show ?thesis by auto
qed

lemma extract_pivots_distinct:
  "extract_pivots t = Some m \<Longrightarrow> distinct (map fst m)"
proof (cases t)
  case (And es)
  assume "extract_pivots t = Some m"
  with And show ?thesis using and_loop_distinct[of "map extract_pivots es" "[]" m] by simp
next
  case (Or es)
  assume e: "extract_pivots t = Some m"
  with Or obtain ps where ps: "map extract_pivots es = map Some ps" and ne: "ps \<noteq> []"
    by (auto simp: or_pivots_def those_eq_Some split: option.splits list.splits)
  from or_pivots_Some[OF ne] e Or ps show ?thesis by auto
qed (auto simp: distinct_update)

lemma children_pivots_total:
  assumes "\<forall>e\<in>set exprs. \<exists>m. extract_pivots e = Some m"
  shows "\<exists>ps. map extract_pivots exprs = map Some ps \<and> length ps = length exprs
           \<and> (\<forall>p\<in>set ps. distinct (map fst p))"
proof -
  let ?ps = "map (\<lambda>e. the (extract_pivots e)) exprs"
  from assms have 1: "map extract_pivots exprs = map Some ?ps" by auto
  have "distinct (map fst (the (extract_pivots e)))" if "e \<in> set exprs" for e
  proof -
    from assms that obtain m where "extract_pivots e = Some m" by blast
    then show ?thesis using extract_pivots_distinct[of e m] by simp
  qed
  then have "\<forall>p\<in>set ?ps. distinct (map fst p)" by auto
  with 1 show ?thesis by (intro exI[of _ ?ps]) simp
qed

lemma extract_pivots_total: "wf_term t \<Longrightarrow> \<exists>m. extract_pivots t = Some m"
proof (induction t rule: extract_pivots.induct)
  case (4 exprs)
  then have "\<forall>e\<in>set exprs. \<exists>m. extract_pivots e = Some m" by auto
  from children_pivots_total[OF this] obtain ps where
    ps: "map extract_pivots exprs = map Some ps" and d: "\<forall>p\<in>set ps. distinct (map fst p)"
    by blast
  from and_pivots_Some[OF d] ps show ?case by auto
next
  case (5 exprs)
  then have "\<forall>e\<in>set exprs. \<exists>m. extract_pivots e = Some m" by auto
  from children_pivots_total[OF this] obtain ps where
    ps: "map extract_pivots exprs = map Some ps" and l: "length ps = length exprs"
    by blast
  from 5(2) l have "ps \<noteq> []" by auto
  from or_pivots_Some[OF this] ps show ?case by auto
qed simp_all

text \<open>
  C3. For an \<open>And\<close> or \<open>Or\<close> node over one or more well-formed children (every node the
  constructors return is one), the children's pivot dicts all exist, and
  \<open>extract_pivots\<close> returns a dict with one entry per key that, read as a map, is the
  reference: for \<open>And\<close> the keys of any child, each with the intersection of its candidate
  sets; for \<open>Or\<close> the keys of every child, each with the union of its candidate sets.
\<close>

theorem C3_extract_pivots_compound:
  assumes "\<forall>e\<in>set exprs. wf_term e" and "exprs \<noteq> []"
  shows "\<exists>children. those (map extract_pivots exprs) = Some children
     \<and> (\<exists>m. extract_pivots (And exprs) = Some m \<and> distinct (map fst m)
            \<and> map_of m = and_pivots_spec children)
     \<and> (\<exists>m. extract_pivots (Or exprs) = Some m \<and> distinct (map fst m)
            \<and> map_of m = or_pivots_spec children)"
proof -
  from assms(1) have "\<forall>e\<in>set exprs. \<exists>m. extract_pivots e = Some m"
    by (simp add: extract_pivots_total)
  from children_pivots_total[OF this] obtain ps where
    ps: "map extract_pivots exprs = map Some ps" and l: "length ps = length exprs"
    and d: "\<forall>p\<in>set ps. distinct (map fst p)"
    by blast
  from assms(2) l have ne: "ps \<noteq> []" by auto
  have "those (map extract_pivots exprs) = Some ps" by (simp add: ps those_eq_Some)
  with and_pivots_Some[OF d] or_pivots_Some[OF ne] ps show ?thesis by simp
qed

theorem C3_witness:
  "wf_term (Eq ''v1'' ''t'') \<and> wf_term (Eq ''v2'' ''t'')
   \<and> [Eq ''v1'' ''t'', Eq ''v2'' ''t''] \<noteq> []
   \<and> those (map extract_pivots [Eq ''v1'' ''t'', Eq ''v2'' ''t''])
       = Some [[(''v1'', {''t''}), (''t'', {''v1''})], [(''v2'', {''t''}), (''t'', {''v2''})]]
   \<and> map_option map_of (extract_pivots (And [Eq ''v1'' ''t'', Eq ''v2'' ''t'']))
       = Some (and_pivots_spec
           [[(''v1'', {''t''}), (''t'', {''v1''})], [(''v2'', {''t''}), (''t'', {''v2''})]])
   \<and> map_option map_of (extract_pivots (Or [Eq ''v1'' ''t'', Eq ''v2'' ''t'']))
       = Some (or_pivots_spec
           [[(''v1'', {''t''}), (''t'', {''v1''})], [(''v2'', {''t''}), (''t'', {''v2''})]])
   \<and> extract_pivots (And [Eq ''v1'' ''t'', Eq ''v2'' ''t''])
       = Some [(''v1'', {''t''}), (''t'', {}), (''v2'', {''t''})]
   \<and> extract_pivots (Or [Eq ''v1'' ''t'', Eq ''v2'' ''t''])
       = Some [(''t'', {''v1'', ''v2''})]"
proof -
  have ev: "those (map extract_pivots [Eq ''v1'' ''t'', Eq ''v2'' ''t''])
       = Some [[(''v1'', {''t''}), (''t'', {''v1''})], [(''v2'', {''t''}), (''t'', {''v2''})]]"
    by simp
  have a: "extract_pivots (And [Eq ''v1'' ''t'', Eq ''v2'' ''t''])
       = Some [(''v1'', {''t''}), (''t'', {}), (''v2'', {''t''})]"
    by simp
  have b: "extract_pivots (Or [Eq ''v1'' ''t'', Eq ''v2'' ''t''])
       = Some [(''t'', {''v1'', ''v2''})]"
    by (auto simp: or_pivots_def or_keys_def)
  have w: "\<forall>e\<in>set [Eq ''v1'' ''t'', Eq ''v2'' ''t'']. wf_term e" by simp
  from C3_extract_pivots_compound[OF w] ev a b show ?thesis
    by (simp del: extract_pivots.simps)
qed

section \<open>Repeated compound children\<close>

text \<open>
  Whatever content the frozenset of a constructor call has, the call returns a constant
  exactly when \<open>And_new\<close> or \<open>Or_new\<close> returns it, and the term it returns has the same
  pivots, as a map, as the term that \<open>And_new\<close> or \<open>Or_new\<close> returns. These two are what
  \<open>solve\<close> reads of a simplified term.
\<close>

lemma And_of_FALSE: "And_of ys = FALSE \<longleftrightarrow> FALSE \<in> set ys"
proof (cases "removeAll TRUE ys")
  case Nil
  then have "set ys \<subseteq> {TRUE}" by (metis Diff_eq_empty_iff list.set(1) set_removeAll)
  then have "FALSE \<notin> set ys" by auto
  with Nil show ?thesis by (simp add: And_of_def)
next
  case (Cons e es)
  have m: "FALSE \<in> set (removeAll TRUE ys) \<longleftrightarrow> FALSE \<in> set ys" by simp
  show ?thesis
  proof (cases "FALSE \<in> set ys")
    case True
    with m show ?thesis by (simp add: And_of_def)
  next
    case False
    with m Cons have "e \<noteq> FALSE" by auto
    with False m Cons show ?thesis by (auto simp: And_of_def Let_def)
  qed
qed

lemma Or_of_TRUE: "Or_of ys = TRUE \<longleftrightarrow> TRUE \<in> set ys"
proof (cases "removeAll FALSE ys")
  case Nil
  then have "set ys \<subseteq> {FALSE}" by (metis Diff_eq_empty_iff list.set(1) set_removeAll)
  then have "TRUE \<notin> set ys" by auto
  with Nil show ?thesis by (simp add: Or_of_def)
next
  case (Cons e es)
  have m: "TRUE \<in> set (removeAll FALSE ys) \<longleftrightarrow> TRUE \<in> set ys" by simp
  show ?thesis
  proof (cases "TRUE \<in> set ys")
    case True
    with m show ?thesis by (simp add: Or_of_def)
  next
    case False
    with m Cons have "e \<noteq> TRUE" by auto
    with False m Cons show ?thesis by (auto simp: Or_of_def Let_def)
  qed
qed

lemma And_of_TRUE: "And_of ys = TRUE \<longleftrightarrow> set ys \<subseteq> {TRUE}"
proof (cases "removeAll TRUE ys")
  case Nil
  then have "set ys \<subseteq> {TRUE}" by (metis Diff_eq_empty_iff list.set(1) set_removeAll)
  with Nil show ?thesis by (simp add: And_of_def)
next
  case (Cons e es)
  then have "e \<in> set (removeAll TRUE ys)" by simp
  then have e: "e \<noteq> TRUE" "e \<in> set ys" by simp_all
  then have "\<not> set ys \<subseteq> {TRUE}" by auto
  with Cons e(1) show ?thesis by (auto simp: And_of_def Let_def)
qed

lemma Or_of_FALSE: "Or_of ys = FALSE \<longleftrightarrow> set ys \<subseteq> {FALSE}"
proof (cases "removeAll FALSE ys")
  case Nil
  then have "set ys \<subseteq> {FALSE}" by (metis Diff_eq_empty_iff list.set(1) set_removeAll)
  with Nil show ?thesis by (simp add: Or_of_def)
next
  case (Cons e es)
  then have "e \<in> set (removeAll FALSE ys)" by simp
  then have e: "e \<noteq> FALSE" "e \<in> set ys" by simp_all
  then have "\<not> set ys \<subseteq> {FALSE}" by auto
  with Cons e(1) show ?thesis by (auto simp: Or_of_def Let_def)
qed

lemma set_bounds: "set (bounds ps k) = {s. \<exists>p\<in>set ps. map_of p k = Some s}"
  by (induction ps) (auto simp: bounds_def split: option.splits)

lemma and_pivots_spec_set: "set ps = set ps' \<Longrightarrow> and_pivots_spec ps = and_pivots_spec ps'"
  by (rule ext) (simp add: and_pivots_spec_def list_ex_iff set_bounds)

lemma or_pivots_spec_set: "set ps = set ps' \<Longrightarrow> or_pivots_spec ps = or_pivots_spec ps'"
  by (rule ext) (simp add: or_pivots_spec_def list_all_iff set_bounds)

lemma and_pivots_spec_single: "and_pivots_spec [p] = map_of p"
proof
  fix k
  show "and_pivots_spec [p] k = map_of p k"
    by (cases "map_of p k") (simp_all add: and_pivots_spec_def bounds_def key_iff)
qed

lemma or_pivots_spec_single: "or_pivots_spec [p] = map_of p"
proof
  fix k
  show "or_pivots_spec [p] k = map_of p k"
    by (cases "map_of p k") (simp_all add: or_pivots_spec_def bounds_def key_iff)
qed

lemma children_pivots_set:
  "map extract_pivots xs = map Some ps \<Longrightarrow> set ps = (\<lambda>e. the (extract_pivots e)) ` set xs"
proof (induction xs arbitrary: ps)
  case Nil
  then show ?case by simp
next
  case (Cons x xs)
  then show ?case by (cases ps) auto
qed

lemma And_pick_pivots:
  assumes "map extract_pivots xs = map Some ps"
    and "\<forall>p\<in>set ps. distinct (map fst p)"
  shows "\<exists>m. extract_pivots (if length xs > 1 then And xs
                                else (case xs of e # _ \<Rightarrow> e | [] \<Rightarrow> TRUE)) = Some m
             \<and> map_of m = and_pivots_spec ps"
proof (cases xs)
  case Nil
  with assms(1) have "ps = []" by simp
  with Nil show ?thesis by (simp add: and_pivots_spec_def fun_eq_iff)
next
  case (Cons e es)
  show ?thesis
  proof (cases es)
    case Nil
    with Cons assms(1) obtain p where "ps = [p]" and "extract_pivots e = Some p" by auto
    with Cons Nil show ?thesis by (simp add: and_pivots_spec_single)
  next
    case (Cons e' es')
    with \<open>xs = e # es\<close> have l: "length xs > 1" by simp
    from and_pivots_Some[OF assms(2)] assms(1) obtain m where
      "extract_pivots (And xs) = Some m" and "map_of m = and_pivots_spec ps" by auto
    with l show ?thesis by simp
  qed
qed

lemma Or_pick_pivots:
  assumes "map extract_pivots xs = map Some ps" and "xs \<noteq> []"
  shows "\<exists>m. extract_pivots (if length xs > 1 then Or xs
                                else (case xs of e # _ \<Rightarrow> e | [] \<Rightarrow> FALSE)) = Some m
             \<and> map_of m = or_pivots_spec ps"
proof (cases xs)
  case Nil
  with assms(2) show ?thesis by simp
next
  case (Cons e es)
  show ?thesis
  proof (cases es)
    case Nil
    with Cons assms(1) obtain p where "ps = [p]" and "extract_pivots e = Some p" by auto
    with Cons Nil show ?thesis by (simp add: or_pivots_spec_single)
  next
    case (Cons e' es')
    with \<open>xs = e # es\<close> have l: "length xs > 1" by simp
    from assms have "ps \<noteq> []" by auto
    from or_pivots_Some[OF this] assms(1) obtain m where
      "extract_pivots (Or xs) = Some m" and "map_of m = or_pivots_spec ps" by auto
    with l show ?thesis by simp
  qed
qed

lemma And_of_same_pivots:
  assumes "set ys = set ys'" and "\<forall>e\<in>set ys. \<exists>m. extract_pivots e = Some m"
  shows "map_option map_of (extract_pivots (And_of ys))
       = map_option map_of (extract_pivots (And_of ys'))"
proof (cases "FALSE \<in> set ys")
  case True
  with assms(1) have "And_of ys = FALSE" and "And_of ys' = FALSE" by (simp_all add: And_of_FALSE)
  then show ?thesis by simp
next
  case False
  let ?xs = "removeAll TRUE ys" and ?xs' = "removeAll TRUE ys'"
  from assms(1) have sx: "set ?xs = set ?xs'" by simp
  from assms(2) have t: "\<forall>e\<in>set ?xs. \<exists>m. extract_pivots e = Some m" by simp
  with sx have t': "\<forall>e\<in>set ?xs'. \<exists>m. extract_pivots e = Some m" by simp
  from children_pivots_total[OF t] obtain ps where
    ps: "map extract_pivots ?xs = map Some ps" and d: "\<forall>p\<in>set ps. distinct (map fst p)"
    by blast
  from children_pivots_total[OF t'] obtain ps' where
    ps': "map extract_pivots ?xs' = map Some ps'" and d': "\<forall>p\<in>set ps'. distinct (map fst p)"
    by blast
  from children_pivots_set[OF ps] children_pivots_set[OF ps'] sx have "set ps = set ps'"
    by simp
  then have e: "and_pivots_spec ps = and_pivots_spec ps'" by (rule and_pivots_spec_set)
  from False assms(1) have f: "FALSE \<notin> set ?xs" "FALSE \<notin> set ?xs'" by simp_all
  from And_pick_pivots[OF ps d] f(1) obtain m where
    m: "extract_pivots (And_of ys) = Some m" "map_of m = and_pivots_spec ps"
    by (auto simp: And_of_def Let_def)
  from And_pick_pivots[OF ps' d'] f(2) obtain m' where
    m': "extract_pivots (And_of ys') = Some m'" "map_of m' = and_pivots_spec ps'"
    by (auto simp: And_of_def Let_def)
  from m m' e show ?thesis by simp
qed

lemma Or_of_same_pivots:
  assumes "set ys = set ys'" and "\<forall>e\<in>set ys. \<exists>m. extract_pivots e = Some m"
  shows "map_option map_of (extract_pivots (Or_of ys))
       = map_option map_of (extract_pivots (Or_of ys'))"
proof (cases "TRUE \<in> set ys")
  case True
  with assms(1) have "Or_of ys = TRUE" and "Or_of ys' = TRUE" by (simp_all add: Or_of_TRUE)
  then show ?thesis by simp
next
  case False
  let ?xs = "removeAll FALSE ys" and ?xs' = "removeAll FALSE ys'"
  from assms(1) have sx: "set ?xs = set ?xs'" by simp
  from False assms(1) have f: "TRUE \<notin> set ?xs" "TRUE \<notin> set ?xs'" by simp_all
  show ?thesis
  proof (cases "?xs = []")
    case True
    with sx have "?xs' = []" by (metis set_empty)
    with True f show ?thesis by (simp add: Or_of_def)
  next
    case ne: False
    with sx have ne': "?xs' \<noteq> []" by (metis set_empty)
    from assms(2) have t: "\<forall>e\<in>set ?xs. \<exists>m. extract_pivots e = Some m" by simp
    with sx have t': "\<forall>e\<in>set ?xs'. \<exists>m. extract_pivots e = Some m" by simp
    from children_pivots_total[OF t] obtain ps where
      ps: "map extract_pivots ?xs = map Some ps" by blast
    from children_pivots_total[OF t'] obtain ps' where
      ps': "map extract_pivots ?xs' = map Some ps'" by blast
    from children_pivots_set[OF ps] children_pivots_set[OF ps'] sx have "set ps = set ps'"
      by simp
    then have e: "or_pivots_spec ps = or_pivots_spec ps'" by (rule or_pivots_spec_set)
    from Or_pick_pivots[OF ps ne] f(1) obtain m where
      m: "extract_pivots (Or_of ys) = Some m" "map_of m = or_pivots_spec ps"
      by (auto simp: Or_of_def Let_def)
    from Or_pick_pivots[OF ps' ne'] f(2) obtain m' where
      m': "extract_pivots (Or_of ys') = Some m'" "map_of m' = or_pivots_spec ps'"
      by (auto simp: Or_of_def Let_def)
    from m m' e show ?thesis by simp
  qed
qed

lemma And_new_any_content:
  assumes "frozenset_of (concat (map And_flatten exprs)) frozen"
    and "\<forall>e\<in>set frozen. \<exists>m. extract_pivots e = Some m"
  shows "(And_of frozen = FALSE) = (And_new exprs = FALSE)"
    and "(And_of frozen = TRUE) = (And_new exprs = TRUE)"
    and "map_option map_of (extract_pivots (And_of frozen))
       = map_option map_of (extract_pivots (And_new exprs))"
proof -
  from assms(1) have s: "set frozen = set (remdups (concat (map And_flatten exprs)))"
    by (simp add: frozenset_of_def)
  then show "(And_of frozen = FALSE) = (And_new exprs = FALSE)"
    by (simp only: And_new_And_of And_of_FALSE)
  from s show "(And_of frozen = TRUE) = (And_new exprs = TRUE)"
    by (simp only: And_new_And_of And_of_TRUE)
  from And_of_same_pivots[OF s assms(2)]
  show "map_option map_of (extract_pivots (And_of frozen))
       = map_option map_of (extract_pivots (And_new exprs))"
    by (simp only: And_new_And_of)
qed

lemma Or_new_any_content:
  assumes "frozenset_of (concat (map Or_flatten exprs)) frozen"
    and "\<forall>e\<in>set frozen. \<exists>m. extract_pivots e = Some m"
  shows "(Or_of frozen = TRUE) = (Or_new exprs = TRUE)"
    and "(Or_of frozen = FALSE) = (Or_new exprs = FALSE)"
    and "map_option map_of (extract_pivots (Or_of frozen))
       = map_option map_of (extract_pivots (Or_new exprs))"
proof -
  from assms(1) have s: "set frozen = set (remdups (concat (map Or_flatten exprs)))"
    by (simp add: frozenset_of_def)
  then show "(Or_of frozen = TRUE) = (Or_new exprs = TRUE)"
    by (simp only: Or_new_Or_of Or_of_TRUE)
  from s show "(Or_of frozen = FALSE) = (Or_new exprs = FALSE)"
    by (simp only: Or_new_Or_of Or_of_FALSE)
  from Or_of_same_pivots[OF s assms(2)]
  show "map_option map_of (extract_pivots (Or_of frozen))
       = map_option map_of (extract_pivots (Or_new exprs))"
    by (simp only: Or_new_Or_of)
qed


section \<open>Candidate sets only shrink\<close>

lemma sub_cands_refl: "sub_cands cs cs"
  by (simp add: sub_cands_def)

lemma sub_cands_trans: "sub_cands cs'' cs' \<Longrightarrow> sub_cands cs' cs \<Longrightarrow> sub_cands cs'' cs"
  by (auto simp: sub_cands_def)

lemma sub_cands_filter: "sub_cands (filter P cs) cs"
  by (simp add: sub_cands_def)

lemma le_asg_refl: "le_asg a a"
  by (simp add: le_asg_def option.rel_refl sub_cands_refl)

lemma le_asg_trans: "le_asg a'' a' \<Longrightarrow> le_asg a' a \<Longrightarrow> le_asg a'' a"
proof -
  assume 1: "le_asg a'' a'" and 2: "le_asg a' a"
  have "rel_option sub_cands (map_of a'' k) (map_of a k)" for k
  proof -
    from 1 have r1: "rel_option sub_cands (map_of a'' k) (map_of a' k)"
      by (simp add: le_asg_def)
    from 2 have r2: "rel_option sub_cands (map_of a' k) (map_of a k)"
      by (simp add: le_asg_def)
    from r1 r2 show ?thesis
      by (cases "map_of a'' k"; cases "map_of a' k"; cases "map_of a k")
         (auto intro: sub_cands_trans)
  qed
  then show ?thesis by (simp add: le_asg_def)
qed

lemma le_asg_update:
  "map_of a k = Some cs \<Longrightarrow> le_asg (AList.update k (filter P cs) a) a"
proof -
  assume m: "map_of a k = Some cs"
  have "rel_option sub_cands (map_of (AList.update k (filter P cs) a) k') (map_of a k')" for k'
  proof (cases "k' = k")
    case True
    with m show ?thesis by (simp add: update_conv' sub_cands_filter)
  next
    case False
    then show ?thesis by (simp add: update_conv' option.rel_refl sub_cands_refl)
  qed
  then show ?thesis by (simp add: le_asg_def)
qed

lemma le_asg_lookup:
  "le_asg a' a \<Longrightarrow> map_of a k = Some cs \<Longrightarrow> \<exists>cs'. map_of a' k = Some cs' \<and> sub_cands cs' cs"
  by (auto simp: le_asg_def option_rel_Some2 dest!: spec[of _ k])

lemma le_asg_lookup':
  "le_asg a' a \<Longrightarrow> map_of a' k = Some cs' \<Longrightarrow> \<exists>cs. map_of a k = Some cs \<and> sub_cands cs' cs"
  by (auto simp: le_asg_def option_rel_Some1 dest!: spec[of _ k])

lemma le_asg_subset: "le_asg a' a \<Longrightarrow> set (dict_get a' k) \<subseteq> set (dict_get a k)"
proof (cases "map_of a' k")
  case None
  then show ?thesis by (simp add: dict_get_def)
next
  case (Some cs')
  assume "le_asg a' a"
  from le_asg_lookup'[OF this Some] Some show ?thesis
    by (auto simp: dict_get_def sub_cands_def)
qed

lemma set_remove_le: "set_remove a var v = Some a' \<Longrightarrow> le_asg a' a"
  by (auto simp: set_remove_def removeAll_filter_not_eq le_asg_update
           split: option.splits if_splits)

lemma check_value_le:
  "check_value S var v (a, c, ts) = Some (a', c', ts') \<Longrightarrow> le_asg a' a"
  by (auto simp: le_asg_refl split: option.splits if_splits dest: set_remove_le)

lemma foldM_check_value_le:
  "foldM (check_value S var) vs (a, c, ts) = Some (a', c', ts') \<Longrightarrow> le_asg a' a"
proof (induction vs arbitrary: a c ts)
  case Nil
  then show ?case by (simp add: le_asg_refl)
next
  case (Cons v vs)
  from Cons.prems obtain a1 c1 ts1 where
    s1: "check_value S var v (a, c, ts) = Some (a1, c1, ts1)"
    and s2: "foldM (check_value S var) vs (a1, c1, ts1) = Some (a', c', ts')"
    by (auto split: option.splits)
  from Cons.IH[OF s2] check_value_le[OF s1] show ?case by (rule le_asg_trans)
qed

lemma ground_step_le: "le_asg (ground_step p a) a"
  by (cases p) (auto simp: le_asg_refl le_asg_update split: option.splits)

lemma fold_ground_step_le: "le_asg (fold ground_step ps a) a"
proof (induction ps arbitrary: a)
  case Nil
  show ?case by (simp add: le_asg_refl)
next
  case (Cons p ps)
  from Cons.IH[of "ground_step p a"] ground_step_le[of p a] show ?case
    by (simp add: le_asg_trans)
qed

lemma narrow_step_fst: "fst (narrow_step p (a, c)) = ground_step p a"
  by (cases p) (simp add: Let_def split: option.splits)

lemma fold_narrow_step_fst: "fst (fold narrow_step ps (a, c)) = fold ground_step ps a"
proof (induction ps arbitrary: a c)
  case Nil
  show ?case by simp
next
  case (Cons p ps)
  obtain a1 c1 where s: "narrow_step p (a, c) = (a1, c1)" by fastforce
  with narrow_step_fst[of p a c] have "a1 = ground_step p a" by simp
  with s Cons.IH[of a1 c1] show ?case by simp
qed

lemma fold_narrow_step_le: "fold narrow_step ps (a, c) = (a', c') \<Longrightarrow> le_asg a' a"
  using fold_narrow_step_fst[of ps a c] fold_ground_step_le[of ps a] by simp

lemma var_step_le: "var_step S var (a, c) = Some (a', c') \<Longrightarrow> le_asg a' a"
proof -
  assume "var_step S var (a, c) = Some (a', c')"
  then obtain cands a1 c1 ts d where
    f: "foldM (check_value S var) cands (a, c, []) = Some (a1, c1, ts)"
    and n: "fold narrow_step d (a1, c1) = (a', c')"
    by (auto simp: var_step_def split: option.splits)
  from fold_narrow_step_le[OF n] foldM_check_value_le[OF f] show ?thesis by (rule le_asg_trans)
qed

lemma foldM_var_step_le:
  "foldM (var_step S) vars (a, c) = Some (a', c') \<Longrightarrow> le_asg a' a"
proof (induction vars arbitrary: a c)
  case Nil
  then show ?case by (simp add: le_asg_refl)
next
  case (Cons v vars)
  from Cons.prems obtain a1 c1 where
    s1: "var_step S v (a, c) = Some (a1, c1)"
    and s2: "foldM (var_step S) vars (a1, c1) = Some (a', c')"
    by (auto split: option.splits)
  from Cons.IH[OF s2] var_step_le[OF s1] show ?case by (rule le_asg_trans)
qed

lemma one_pass_le: "one_pass S a = Some (a', c') \<Longrightarrow> le_asg a' a"
  by (simp add: one_pass_def foldM_var_step_le)

lemma passes_le: "passes S n a = Some a' \<Longrightarrow> le_asg a' a"
proof (induction n arbitrary: a)
  case 0
  then show ?case by (simp add: le_asg_refl)
next
  case (Suc n)
  from Suc.prems obtain a1 c1 where
    s1: "one_pass S a = Some (a1, c1)" and s2: "passes S n a1 = Some a'"
    by (auto split: option.splits)
  from Suc.IH[OF s2] one_pass_le[OF s1] show ?case by (rule le_asg_trans)
qed

lemma fixpoint_loop_le: "fixpoint_loop S a = Some a' \<Longrightarrow> le_asg a' a"
proof (induction S a rule: fixpoint_loop.induct)
  case (1 S a)
  from "1.prems" obtain a1 c1 where p: "one_pass S a = Some (a1, c1)"
    by (auto split: option.splits)
  show ?case
  proof (cases c1)
    case True
    with p "1.prems" have "fixpoint_loop S a1 = Some a'" by simp
    from "1.IH"[OF p refl True this] one_pass_le[OF p] show ?thesis
      by (rule le_asg_trans)
  next
    case False
    with p "1.prems" have "a' = a1" by simp
    with one_pass_le[OF p] show ?thesis by simp
  qed
qed

lemma fixpoint_loop_passes:
  "fixpoint_loop S a = Some a' \<Longrightarrow> \<exists>n. passes S (Suc n) a = Some a'"
proof (induction S a rule: fixpoint_loop.induct)
  case (1 S a)
  from "1.prems" obtain a1 c1 where p: "one_pass S a = Some (a1, c1)"
    by (auto split: option.splits)
  show ?case
  proof (cases c1)
    case True
    with p "1.prems" have "fixpoint_loop S a1 = Some a'" by simp
    from "1.IH"[OF p refl True this] obtain n where "passes S (Suc n) a1 = Some a'"
      by auto
    with p have "passes S (Suc (Suc n)) a = Some a'" by simp
    then show ?thesis by blast
  next
    case False
    with p "1.prems" have "passes S (Suc 0) a = Some a'" by simp
    then show ?thesis by blast
  qed
qed

lemma complete_fields:
  "variables (complete S) = variables S" "values' (complete S) = values' S"
  "ground_truth (complete S) = ground_truth S"
  by (simp_all add: complete_def)

lemma ground_assignments_le:
  "start_assignments S = Some a0 \<Longrightarrow> ground_assignments S = Some a1 \<Longrightarrow> le_asg a1 a0"
  by (auto simp: ground_assignments_def fold_ground_step_le split: option.splits)

lemma solve_le: "ground_assignments S = Some a1 \<Longrightarrow> solve S = Some a \<Longrightarrow> le_asg a a1"
  by (simp add: solve_def fixpoint_loop_le)

text \<open>
  C4. Let \<open>a0\<close> be the assignment \<open>solve\<close> starts with and \<open>a1\<close> the assignment with which
  it enters the fixpoint loop. Take any point of the loop: after \<open>n\<close> runs of the body
  (\<open>a2\<close>), \<open>k\<close> variables into the next run (\<open>a3\<close>), \<open>j\<close> values into the value loop of a
  variable (\<open>a4\<close>), and \<open>i\<close> pivots into a narrowing (\<open>a5\<close>). For every name \<open>x\<close>, the
  candidate set at each of these points is a subset of the one at the point before, and
  so of the one in \<open>a0\<close>; the same holds for the assignment that \<open>solve\<close> returns.
\<close>

theorem C4_monotonic_shrink:
  assumes "start_assignments S = Some a0"
    and "ground_assignments S = Some a1"
    and "passes (complete S) n a1 = Some a2"
    and "foldM (var_step (complete S)) (take k (variables (complete S))) (a2, False)
           = Some (a3, c3)"
    and "map_of a3 var = Some cands"
    and "foldM (check_value (complete S) var) (take j cands) (a3, c3, []) = Some (a4, c4, terms)"
    and "fold narrow_step (take i d_pivots) (a4, c4) = (a5, c5)"
  shows "set (dict_get a5 x) \<subseteq> set (dict_get a4 x)
       \<and> set (dict_get a4 x) \<subseteq> set (dict_get a3 x)
       \<and> set (dict_get a3 x) \<subseteq> set (dict_get a2 x)
       \<and> set (dict_get a2 x) \<subseteq> set (dict_get a1 x)
       \<and> set (dict_get a1 x) \<subseteq> set (dict_get a0 x)
       \<and> (\<forall>a. solve S = Some a \<longrightarrow> set (dict_get a x) \<subseteq> set (dict_get a0 x))"
proof -
  have "le_asg a5 a4" using assms(7) by (rule fold_narrow_step_le)
  moreover have "le_asg a4 a3" using assms(6) by (rule foldM_check_value_le)
  moreover have "le_asg a3 a2" using assms(4) by (rule foldM_var_step_le)
  moreover have "le_asg a2 a1" using assms(3) by (rule passes_le)
  moreover have "le_asg a1 a0" using assms(1,2) by (rule ground_assignments_le)
  moreover have "le_asg a a0" if "solve S = Some a" for a
    using solve_le[OF assms(2) that] ground_assignments_le[OF assms(1,2)]
    by (rule le_asg_trans)
  ultimately show ?thesis by (simp add: le_asg_subset)
qed

theorem C4_witness:
  "start_assignments
     \<lparr>variables = [''x'', ''y''], values' = [''1'', ''2''],
      implications = [Eq_new ''x'' ''1'' \<mapsto> Eq_new ''y'' ''1'',
                      Eq_new ''x'' ''2'' \<mapsto> Eq_new ''y'' ''2'',
                      Eq_new ''y'' ''2'' \<mapsto> FALSE],
      ground_truth = TRUE\<rparr>
     = Some [(''x'', [''1'', ''2'']), (''y'', [''1''])]
   \<and> solve
     \<lparr>variables = [''x'', ''y''], values' = [''1'', ''2''],
      implications = [Eq_new ''x'' ''1'' \<mapsto> Eq_new ''y'' ''1'',
                      Eq_new ''x'' ''2'' \<mapsto> Eq_new ''y'' ''2'',
                      Eq_new ''y'' ''2'' \<mapsto> FALSE],
      ground_truth = TRUE\<rparr>
     = Some [(''x'', [''1'']), (''y'', [''1''])]
   \<and> set (dict_get [(''x'', [''1'']), (''y'', [''1''])] ''x'')
       \<subseteq> set (dict_get [(''x'', [''1'', ''2'']), (''y'', [''1''])] ''x'')"
proof -
  let ?S = "\<lparr>variables = [''x'', ''y''], values' = [''1'', ''2''],
      implications = [Eq_new ''x'' ''1'' \<mapsto> Eq_new ''y'' ''1'',
                      Eq_new ''x'' ''2'' \<mapsto> Eq_new ''y'' ''2'',
                      Eq_new ''y'' ''2'' \<mapsto> FALSE],
      ground_truth = TRUE\<rparr>"
  let ?a0 = "[(''x'', [''1'', ''2'']), (''y'', [''1''])]"
  let ?a4 = "[(''x'', [''1'']), (''y'', [''1''])]"
  have 1: "start_assignments ?S = Some ?a0" by code_simp
  have 2: "ground_assignments ?S = Some ?a0" by code_simp
  have 3: "passes (complete ?S) 0 ?a0 = Some ?a0" by simp
  have 4: "foldM (var_step (complete ?S)) (take 0 (variables (complete ?S))) (?a0, False)
             = Some (?a0, False)" by simp
  have 5: "map_of ?a0 ''x'' = Some [''1'', ''2'']" by simp
  have 6: "foldM (check_value (complete ?S) ''x'') (take 2 [''1'', ''2'']) (?a0, False, [])
             = Some (?a4, True, [Eq ''y'' ''1'', Eq ''y'' ''2''])" by code_simp
  have 7: "fold narrow_step (take 2 [(''y'', {''1''}), (''1'', {''y''})]) (?a4, True)
             = (?a4, True)" by code_simp
  have 8: "solve ?S = Some ?a4" by code_simp
  from C4_monotonic_shrink[OF 1 2 3 4 5 6 7, of "''x''"] 1 8 show ?thesis
    by (simp del: dict_get_def)
qed

section \<open>A conjunction that empties a candidate set\<close>

lemma ground_step_map_of:
  "map_of (ground_step (k, p) a) =
     (case map_of a k of
        None \<Rightarrow> map_of a
      | Some cs \<Rightarrow> (map_of a)(k \<mapsto> filter (\<lambda>v. v \<in> p) cs))"
  by (simp add: update_conv' split: option.splits)

lemma fold_ground_step_map_of:
  "distinct (map fst m) \<Longrightarrow>
   map_of (fold ground_step m a) k =
     (case map_of a k of
        None \<Rightarrow> None
      | Some cs \<Rightarrow> Some (case map_of m k of None \<Rightarrow> cs | Some p \<Rightarrow> filter (\<lambda>v. v \<in> p) cs))"
proof (induction m arbitrary: a)
  case Nil
  show ?case by (simp split: option.splits)
next
  case (Cons e m)
  obtain n p where e: "e = (n, p)" by (cases e)
  from Cons.prems e have d: "distinct (map fst m)" and n: "map_of m n = None"
    by (auto simp: map_of_eq_None_iff)
  have "map_of (fold ground_step m (ground_step (n, p) a)) k =
     (case map_of (ground_step (n, p) a) k of
        None \<Rightarrow> None
      | Some cs \<Rightarrow> Some (case map_of m k of None \<Rightarrow> cs | Some p \<Rightarrow> filter (\<lambda>v. v \<in> p) cs))"
    by (rule Cons.IH[OF d])
  then show ?case using n
    by (auto simp: e ground_step_map_of simp del: ground_step.simps split: option.splits)
qed

lemma And_new_two_Eq:
  assumes "x \<noteq> a" "x \<noteq> b" "a \<noteq> b"
  shows "And_new [Eq_new x a, Eq_new x b] = And [Eq_new x a, Eq_new x b]"
    and "Eq_new x a = Eq (max x a) (min x a)" and "Eq_new x b = Eq (max x b) (min x b)"
    and "Eq_new x a \<noteq> Eq_new x b"
  using assms by (auto simp: And_new_def Eq_new_cases max_def min_def)

lemma Eq_pivots_lookup:
  "x \<noteq> a \<Longrightarrow> map_of (AList.update (min x a) {max x a} (AList.update (max x a) {min x a} [])) x = Some {a}"
  by (auto simp: max_def min_def)

lemma ground_step_keys: "map fst (ground_step p a) = map fst a"
proof (cases p)
  case (Pair k vs)
  show ?thesis
  proof (cases "map_of a k")
    case None
    with Pair show ?thesis by simp
  next
    case (Some cs)
    then have "map_of a k \<noteq> None" by simp
    then have "k \<in> set (map fst a)" by (simp add: map_of_eq_None_iff)
    with Pair Some show ?thesis by (simp add: update_keys)
  qed
qed

lemma fold_ground_step_keys: "map fst (fold ground_step m a) = map fst a"
  by (induction m arbitrary: a) (simp_all add: ground_step_keys)

lemma single_entry:
  assumes "map fst a = [x]" and "map_of a x = Some cs"
  shows "a = [(x, cs)]"
proof -
  from assms(1) obtain e where a: "a = [e]" and "fst e = x" by auto
  with assms(2) show ?thesis by (cases e) simp
qed


lemma simplify_Eq_possible:
  "right \<in> set (dict_get a left) \<or> left \<in> set (dict_get a right)
   \<Longrightarrow> simplify (Eq left right) a = Eq left right"
  by simp

lemma dict_get_single: "dict_get [(x, cs)] x = cs"
  by (simp add: dict_get_def)

lemma simplify_Eq_new_candidate:
  assumes "x \<noteq> v" and "v \<in> set cs"
  shows "simplify (Eq_new x v) [(x, cs)] = Eq_new x v"
proof (cases "x \<le> v")
  case True
  with assms(1) have e: "Eq_new x v = Eq v x" by (simp add: Eq_new_cases max_def min_def)
  have "simplify (Eq v x) [(x, cs)] = Eq v x"
    by (rule simplify_Eq_possible) (simp add: dict_get_single assms(2))
  then show ?thesis unfolding e .
next
  case False
  with assms(1) have e: "Eq_new x v = Eq x v" by (simp add: Eq_new_cases max_def min_def)
  have "simplify (Eq x v) [(x, cs)] = Eq x v"
    by (rule simplify_Eq_possible) (simp add: dict_get_single assms(2))
  then show ?thesis unfolding e .
qed

text \<open>
  C10. For pairwise different labels \<open>x\<close>, \<open>a\<close>, \<open>b\<close>, the pivots of
  \<open>And([Eq(x, a), Eq(x, b)])\<close> exist and map \<open>x\<close> to the empty set. Narrowing any
  assignment that has the key \<open>x\<close> by these pivots, in the loop or for the ground truth,
  leaves \<open>x\<close> with no candidate. With this conjunction as ground truth, the variable \<open>x\<close>
  and the values \<open>a\<close>, \<open>b\<close>, \<open>solve\<close> raises nothing and returns \<open>x\<close> with the empty set.
\<close>

theorem C10_empty_pivot:
  assumes "x \<noteq> a" and "x \<noteq> b" and "a \<noteq> b"
  shows "\<exists>m. extract_pivots (And_new [Eq_new x a, Eq_new x b]) = Some m
       \<and> map_of m x = Some {}
       \<and> (\<forall>assignments changed cands. map_of assignments x = Some cands \<longrightarrow>
             map_of (fst (fold narrow_step m (assignments, changed))) x = Some []
           \<and> map_of (fold ground_step m assignments) x = Some [])
       \<and> solve \<lparr>variables = [x], values' = [a, b], implications = Map.empty,
                   ground_truth = And_new [Eq_new x a, Eq_new x b]\<rparr> = Some [(x, [])]"
proof -
  let ?t = "And [Eq_new x a, Eq_new x b]"
  let ?S = "\<lparr>variables = [x], values' = [a, b], implications = Map.empty,
             ground_truth = And_new [Eq_new x a, Eq_new x b]\<rparr>"
  define pa where "pa = AList.update (min x a) {max x a} (AList.update (max x a) {min x a} [])"
  define pb where "pb = AList.update (min x b) {max x b} (AList.update (max x b) {min x b} [])"
  note eqs = And_new_two_Eq[OF assms]
  have wf: "wf_term ?t" using eqs(2-4) by simp
  from extract_pivots_total[OF wf] obtain m where m: "extract_pivots ?t = Some m" by blast
  have d: "distinct (map fst m)" using m by (rule extract_pivots_distinct)
  have ps: "map extract_pivots [Eq_new x a, Eq_new x b] = map Some [pa, pb]"
    using eqs(2,3) by (simp add: pa_def pb_def)
  have dps: "\<forall>p\<in>set [pa, pb]. distinct (map fst p)"
    by (simp add: pa_def pb_def distinct_update)
  from and_pivots_Some[OF dps] m ps have sem: "map_of m = and_pivots_spec [pa, pb]" by simp
  have la: "map_of pa x = Some {a}" unfolding pa_def using assms(1) by (rule Eq_pivots_lookup)
  have lb: "map_of pb x = Some {b}" unfolding pb_def using assms(2) by (rule Eq_pivots_lookup)
  have bx: "bounds [pa, pb] x = [{a}, {b}]" by (simp add: bounds_def la lb)
  have kx: "x \<in> fst ` set pa" by (simp only: key_iff la) simp
  have mx: "map_of m x = Some {}"
    unfolding sem and_pivots_spec_def using kx assms(3) by (simp add: bx)
  have narrow: "map_of (fold ground_step m assignments) x = Some []"
    if "map_of assignments x = Some cands" for assignments cands
    using fold_ground_step_map_of[OF d, of assignments x] that mx by simp
  \<comment> \<open>the run of \<open>solve\<close>\<close>
  have imps: "implications (complete ?S) = [Eq_new x a \<mapsto> TRUE, Eq_new x b \<mapsto> TRUE]"
    using eqs(4) by (simp add: complete_def complete_step_def Let_def)
  have pv: "possible_values [Eq_new x a \<mapsto> TRUE, Eq_new x b \<mapsto> TRUE] x [a, b] = Some [a, b]"
    using eqs(4) by simp
  have start: "start_assignments ?S = Some [(x, [a, b])]"
    using assms(3) by (simp add: start_assignments_def imps pv complete_fields)
  have sa: "simplify (Eq_new x a) [(x, [a, b])] = Eq_new x a"
    using assms(1) by (rule simplify_Eq_new_candidate) simp
  have sb: "simplify (Eq_new x b) [(x, [a, b])] = Eq_new x b"
    using assms(2) by (rule simplify_Eq_new_candidate) simp
  have simp_t: "simplify ?t [(x, [a, b])] = ?t"
    unfolding simplify.simps(4) by (simp add: sa sb eqs(1))
  have "map_of (fold ground_step m [(x, [a, b])]) x = Some []" by (rule narrow) simp
  moreover have "map fst (fold ground_step m [(x, [a, b])]) = [x]"
    by (simp add: fold_ground_step_keys)
  ultimately have g: "fold ground_step m [(x, [a, b])] = [(x, [])]" by (simp add: single_entry)
  have simp_t': "simplify (And_new [Eq_new x a, Eq_new x b]) [(x, [a, b])] = ?t"
    unfolding eqs(1) by (rule simp_t)
  have ground: "ground_assignments ?S = Some [(x, [])]"
    by (simp add: ground_assignments_def start simp_t' m g
             del: extract_pivots.simps simplify.simps)
  have pass: "one_pass (complete ?S) [(x, [])] = Some ([(x, [])], False)"
    by (simp add: one_pass_def var_step_def complete_def Or_new_def)
  have "solve ?S = Some [(x, [])]"
    by (simp add: solve_def ground fixpoint_loop.simps[of _ "[(x, [])]"] pass)
  with m mx eqs(1) narrow show ?thesis
    by (auto simp add: fold_narrow_step_fst simp del: extract_pivots.simps)
qed

theorem C10_witness:
  "''x'' \<noteq> ''a'' \<and> ''x'' \<noteq> ''b'' \<and> ''a'' \<noteq> ''b''
   \<and> extract_pivots (And_new [Eq_new ''x'' ''a'', Eq_new ''x'' ''b''])
       = Some [(''x'', {}), (''a'', {''x''}), (''b'', {''x''})]
   \<and> fold narrow_step [(''x'', {}), (''a'', {''x''}), (''b'', {''x''})]
        ([(''x'', [''a'', ''b''])], False) = ([(''x'', [])], True)
   \<and> solve \<lparr>variables = [''x''], values' = [''a'', ''b''], implications = Map.empty,
               ground_truth = And_new [Eq_new ''x'' ''a'', Eq_new ''x'' ''b'']\<rparr>
       = Some [(''x'', [])]"
proof -
  have 1: "''x'' \<noteq> ''a''" and 2: "''x'' \<noteq> ''b''" and 3: "''a'' \<noteq> ''b''" by simp_all
  have e: "extract_pivots (And_new [Eq_new ''x'' ''a'', Eq_new ''x'' ''b''])
       = Some [(''x'', {}), (''a'', {''x''}), (''b'', {''x''})]" by code_simp
  have n: "fold narrow_step [(''x'', {}), (''a'', {''x''}), (''b'', {''x''})]
        ([(''x'', [''a'', ''b''])], False) = ([(''x'', [])], True)" by code_simp
  from C10_empty_pivot[OF 1 2 3] e n show ?thesis by simp
qed


section \<open>\<open>solve\<close> raises nothing\<close>

text \<open>
  None of the lookups in \<open>solve\<close> can fail: \<open>_complete\<close> has filled the implication table,
  the assignment keeps a key for every variable, a value is removed from the set it was
  read from, and \<open>simplify\<close> returns terms whose \<open>Or\<close> nodes have children. With the
  termination of the loop, \<open>solve\<close> returns an assignment for every solver state.
\<close>

lemma entries_okD:
  "entries_ok S a \<Longrightarrow> map_of a k = Some cs \<Longrightarrow> distinct cs \<and> set cs \<subseteq> set (values' S)"
  unfolding entries_ok_def by blast

lemma asg_ok_entries: "asg_ok S a \<Longrightarrow> entries_ok S a"
  unfolding asg_ok_def by (rule conjunct2)

lemma asg_ok_key: "asg_ok S a \<Longrightarrow> var \<in> set (variables S) \<Longrightarrow> \<exists>cs. map_of a var = Some cs"
  unfolding asg_ok_def by blast

lemma imps_okD:
  "imps_ok S \<Longrightarrow> var \<in> set (variables S) \<Longrightarrow> v \<in> set (values' S)
   \<Longrightarrow> \<exists>t. implications S (Eq_new var v) = Some t"
  unfolding imps_ok_def by blast

lemma entries_okI:
  "(\<And>k cs. map_of a k = Some cs \<Longrightarrow> distinct cs \<and> set cs \<subseteq> set (values' S))
   \<Longrightarrow> entries_ok S a"
  unfolding entries_ok_def by blast

lemma asg_okI:
  "entries_ok S a \<Longrightarrow> (\<And>var. var \<in> set (variables S) \<Longrightarrow> map_of a var \<noteq> None)
   \<Longrightarrow> asg_ok S a"
  unfolding asg_ok_def by blast

lemma entries_ok_le: "le_asg a' a \<Longrightarrow> entries_ok S a \<Longrightarrow> entries_ok S a'"
proof -
  assume le: "le_asg a' a" and ok: "entries_ok S a"
  have "distinct cs' \<and> set cs' \<subseteq> set (values' S)" if m: "map_of a' k = Some cs'" for k cs'
  proof -
    from le_asg_lookup'[OF le m] obtain cs where c: "map_of a k = Some cs" and s: "sub_cands cs' cs"
      by blast
    from ok c have "distinct cs" and "set cs \<subseteq> set (values' S)"
      unfolding entries_ok_def by blast+
    with s show ?thesis unfolding sub_cands_def by blast
  qed
  then show ?thesis unfolding entries_ok_def by blast
qed

lemma asg_ok_le: "le_asg a' a \<Longrightarrow> asg_ok S a \<Longrightarrow> asg_ok S a'"
proof -
  assume le: "le_asg a' a" and ok: "asg_ok S a"
  have "map_of a' var \<noteq> None" if "var \<in> set (variables S)" for var
  proof -
    from asg_ok_key[OF ok that] obtain cs where "map_of a var = Some cs" by blast
    from le_asg_lookup[OF le this] show ?thesis by auto
  qed
  then show ?thesis by (rule asg_okI[OF entries_ok_le[OF le asg_ok_entries[OF ok]]])
qed

lemma check_value_total:
  assumes "imps_ok S" and "var \<in> set (variables S)" and "asg_ok S a"
    and "map_of a var = Some cs" and "v \<in> set cs"
  shows "\<exists>a' c' ts'. check_value S var v (a, c, ts) = Some (a', c', ts')
           \<and> (map_of a' var = Some cs \<or> map_of a' var = Some (removeAll v cs))"
proof -
  from entries_okD[OF asg_ok_entries[OF assms(3)] assms(4)] assms(5)
  have "v \<in> set (values' S)" by blast
  from imps_okD[OF assms(1,2) this] obtain impl where
    impl: "implications S (Eq_new var v) = Some impl" by blast
  show ?thesis
  proof (cases "simplify impl a = FALSE")
    case True
    from assms(4,5) have r: "set_remove a var v = Some (AList.update var (removeAll v cs) a)"
      unfolding set_remove_def by simp
    have "check_value S var v (a, c, ts)
            = Some (AList.update var (removeAll v cs) a, True, ts @ [impl])"
      unfolding check_value.simps impl r using True by simp
    moreover have "map_of (AList.update var (removeAll v cs) a) var = Some (removeAll v cs)"
      by (simp add: update_conv')
    ultimately show ?thesis by blast
  next
    case False
    have "check_value S var v (a, c, ts) = Some (a, c, ts @ [impl])"
      unfolding check_value.simps impl using False by simp
    with assms(4) show ?thesis by blast
  qed
qed

lemma foldM_check_value_total:
  assumes "imps_ok S" and "var \<in> set (variables S)"
  shows "asg_ok S a \<Longrightarrow> map_of a var = Some cs \<Longrightarrow> distinct vs \<Longrightarrow> set vs \<subseteq> set cs
         \<Longrightarrow> \<exists>r. foldM (check_value S var) vs (a, c, ts) = Some r"
proof (induction vs arbitrary: a c ts cs)
  case Nil
  show ?case by simp
next
  case (Cons v vs)
  from Cons.prems have v: "v \<in> set cs" and nv: "v \<notin> set vs" and dvs: "distinct vs"
    and sub: "set vs \<subseteq> set cs" by auto
  from check_value_total[OF assms Cons.prems(1,2) v, of c ts] obtain a1 c1 ts1 where
    s1: "check_value S var v (a, c, ts) = Some (a1, c1, ts1)"
    and m1: "map_of a1 var = Some cs \<or> map_of a1 var = Some (removeAll v cs)"
    by blast
  have ok1: "asg_ok S a1" using check_value_le[OF s1] Cons.prems(1) by (rule asg_ok_le)
  from m1 show ?case
  proof
    assume m: "map_of a1 var = Some cs"
    from Cons.IH[OF ok1 m dvs sub, of c1 ts1] s1 show ?thesis by simp
  next
    assume m: "map_of a1 var = Some (removeAll v cs)"
    from sub nv have "set vs \<subseteq> set (removeAll v cs)" by auto
    from Cons.IH[OF ok1 m dvs this, of c1 ts1] s1 show ?thesis by simp
  qed
qed

lemma var_step_total:
  assumes "imps_ok S" and "var \<in> set (variables S)" and "asg_ok S a"
  shows "\<exists>a' c'. var_step S var (a, c) = Some (a', c')"
proof -
  from asg_ok_key[OF assms(3,2)] obtain cands where m: "map_of a var = Some cands" by blast
  from entries_okD[OF asg_ok_entries[OF assms(3)] m] have d: "distinct cands" by blast
  from foldM_check_value_total[OF assms(1,2,3) m d subset_refl, of c "[]"]
  obtain a1 c1 ts where f: "foldM (check_value S var) cands (a, c, []) = Some (a1, c1, ts)"
    by (metis prod_cases3)
  from extract_pivots_total[OF wf_simplify, of "Or_new ts" a1]
  obtain d_pivots where e: "extract_pivots (simplify (Or_new ts) a1) = Some d_pivots" by blast
  obtain a' c' where "fold narrow_step d_pivots (a1, c1) = (a', c')" by fastforce
  with m f e show ?thesis by (simp add: var_step_def)
qed

lemma foldM_var_step_total:
  assumes "imps_ok S"
  shows "set vars \<subseteq> set (variables S) \<Longrightarrow> asg_ok S a
         \<Longrightarrow> \<exists>a' c'. foldM (var_step S) vars (a, c) = Some (a', c') \<and> asg_ok S a'"
proof (induction vars arbitrary: a c)
  case Nil
  then show ?case by simp
next
  case (Cons v vars)
  from Cons.prems have v: "v \<in> set (variables S)" and sub: "set vars \<subseteq> set (variables S)"
    by auto
  from var_step_total[OF assms v Cons.prems(2), of c] obtain a1 c1 where
    s1: "var_step S v (a, c) = Some (a1, c1)" by blast
  have ok1: "asg_ok S a1" using var_step_le[OF s1] Cons.prems(2) by (rule asg_ok_le)
  from Cons.IH[OF sub ok1, of c1] s1 show ?case by simp
qed

lemma one_pass_total:
  "imps_ok S \<Longrightarrow> asg_ok S a \<Longrightarrow> \<exists>a' c'. one_pass S a = Some (a', c') \<and> asg_ok S a'"
  using foldM_var_step_total[of S "variables S" a False] by (simp add: one_pass_def)

lemma fixpoint_loop_total:
  "imps_ok S \<Longrightarrow> asg_ok S a \<Longrightarrow> \<exists>a'. fixpoint_loop S a = Some a'"
proof (induction S a rule: fixpoint_loop.induct)
  case (1 S a)
  from one_pass_total[OF "1.prems"] obtain a1 c1 where
    p: "one_pass S a = Some (a1, c1)" and ok1: "asg_ok S a1" by blast
  show ?case
  proof (cases c1)
    case True
    from "1.IH"[OF p refl True "1.prems"(1) ok1] obtain a' where "fixpoint_loop S a1 = Some a'"
      by blast
    with p True show ?thesis by simp
  next
    case False
    with p show ?thesis by simp
  qed
qed

lemma complete_step_keeps: "imps e \<noteq> None \<Longrightarrow> complete_step var v imps e \<noteq> None"
  by (simp add: complete_step_def Let_def)

lemma complete_step_adds: "complete_step var v imps (Eq_new var v) \<noteq> None"
  by (simp add: complete_step_def Let_def)

lemma fold_complete_step_keeps:
  "imps e \<noteq> None \<Longrightarrow> fold (complete_step var) vs imps e \<noteq> None"
proof (induction vs arbitrary: imps)
  case Nil
  then show ?case by simp
next
  case (Cons w vs)
  from Cons.prems have "complete_step var w imps e \<noteq> None" by (rule complete_step_keeps)
  then have "fold (complete_step var) vs (complete_step var w imps) e \<noteq> None"
    by (rule Cons.IH)
  then show ?case by simp
qed

lemma fold_complete_step_adds:
  "v \<in> set vs \<Longrightarrow> fold (complete_step var) vs imps (Eq_new var v) \<noteq> None"
proof (induction vs arbitrary: imps)
  case Nil
  then show ?case by simp
next
  case (Cons w vs)
  show ?case
  proof (cases "v = w")
    case True
    have "complete_step var w imps (Eq_new var w) \<noteq> None" by (rule complete_step_adds)
    then have "fold (complete_step var) vs (complete_step var w imps) (Eq_new var w) \<noteq> None"
      by (rule fold_complete_step_keeps)
    with True show ?thesis by simp
  next
    case False
    with Cons.prems have "v \<in> set vs" by simp
    then have "fold (complete_step var) vs (complete_step var w imps) (Eq_new var v) \<noteq> None"
      by (rule Cons.IH)
    then show ?thesis by simp
  qed
qed

lemma fold_fold_complete_step_keeps:
  "imps e \<noteq> None \<Longrightarrow> fold (\<lambda>var. fold (complete_step var) vs) vars imps e \<noteq> None"
proof (induction vars arbitrary: imps)
  case Nil
  then show ?case by simp
next
  case (Cons w vars)
  from Cons.prems have "fold (complete_step w) vs imps e \<noteq> None"
    by (rule fold_complete_step_keeps)
  then have "fold (\<lambda>var. fold (complete_step var) vs) vars (fold (complete_step w) vs imps) e
               \<noteq> None"
    by (rule Cons.IH)
  then show ?case by simp
qed

lemma fold_fold_complete_step_adds:
  "var \<in> set vars \<Longrightarrow> v \<in> set vs
   \<Longrightarrow> fold (\<lambda>var. fold (complete_step var) vs) vars imps (Eq_new var v) \<noteq> None"
proof (induction vars arbitrary: imps)
  case Nil
  then show ?case by simp
next
  case (Cons w vars)
  show ?case
  proof (cases "var = w")
    case True
    from Cons.prems(2) have "fold (complete_step w) vs imps (Eq_new w v) \<noteq> None"
      by (rule fold_complete_step_adds)
    then have "fold (\<lambda>var. fold (complete_step var) vs) vars (fold (complete_step w) vs imps)
                 (Eq_new w v) \<noteq> None"
      by (rule fold_fold_complete_step_keeps)
    with True show ?thesis by simp
  next
    case False
    with Cons.prems have "var \<in> set vars" by simp
    from Cons.IH[OF this Cons.prems(2)] show ?thesis by simp
  qed
qed

lemma complete_imps_ok: "imps_ok (complete S)"
  unfolding imps_ok_def complete_fields
proof (intro ballI)
  fix var v
  assume "var \<in> set (variables S)" and "v \<in> set (values' S)"
  then have "fold (\<lambda>var. fold (complete_step var) (values' S)) (variables S) (implications S)
          (Eq_new var v) \<noteq> None"
    by (rule fold_fold_complete_step_adds)
  then show "implications (complete S) (Eq_new var v) \<noteq> None" by (simp add: complete_def)
qed

lemma possible_values_total:
  "\<forall>v\<in>set vals. imps (Eq_new var v) \<noteq> None
   \<Longrightarrow> \<exists>vs. possible_values imps var vals = Some vs \<and> set vs \<subseteq> set vals"
proof (induction vals)
  case Nil
  show ?case by simp
next
  case (Cons v vals)
  from Cons.prems obtain impl where i: "imps (Eq_new var v) = Some impl" by auto
  from Cons obtain vs where "possible_values imps var vals = Some vs" and "set vs \<subseteq> set vals"
    by auto
  with i show ?case by auto
qed

lemma init_assignments_total:
  assumes "imps_ok S"
  shows "set vars \<subseteq> set (variables S) \<Longrightarrow> entries_ok S acc
     \<Longrightarrow> \<exists>a. init_assignments S vars acc = Some a \<and> entries_ok S a
           \<and> (\<forall>k. k \<in> set vars \<or> map_of acc k \<noteq> None \<longrightarrow> map_of a k \<noteq> None)"
proof (induction vars arbitrary: acc)
  case Nil
  then show ?case by simp
next
  case (Cons var vars)
  from Cons.prems have var: "var \<in> set (variables S)" and sub: "set vars \<subseteq> set (variables S)"
    by auto
  have "\<forall>v\<in>set (values' S). implications S (Eq_new var v) \<noteq> None"
  proof
    fix v assume "v \<in> set (values' S)"
    from imps_okD[OF assms var this] show "implications S (Eq_new var v) \<noteq> None" by auto
  qed
  from possible_values_total[OF this] obtain vs where
    pv: "possible_values (implications S) var (values' S) = Some vs"
    and vs: "set vs \<subseteq> set (values' S)" by blast
  let ?acc = "AList.update var (remdups vs) acc"
  have ok: "entries_ok S ?acc"
  proof (rule entries_okI)
    fix k cs
    assume m: "map_of ?acc k = Some cs"
    show "distinct cs \<and> set cs \<subseteq> set (values' S)"
    proof (cases "k = var")
      case True
      with m have "cs = remdups vs" by (simp add: update_conv')
      with vs show ?thesis by simp
    next
      case False
      with m have "map_of acc k = Some cs" by (simp add: update_conv')
      with Cons.prems(2) show ?thesis by (rule entries_okD)
    qed
  qed
  from Cons.IH[OF sub ok] obtain a where
    a: "init_assignments S vars ?acc = Some a" and oka: "entries_ok S a"
    and keys: "\<forall>k. k \<in> set vars \<or> map_of ?acc k \<noteq> None \<longrightarrow> map_of a k \<noteq> None"
    by blast
  from keys have "\<forall>k. k \<in> set (var # vars) \<or> map_of acc k \<noteq> None \<longrightarrow> map_of a k \<noteq> None"
    by (auto simp: update_conv')
  with a oka pv show ?case by simp
qed

lemma asg_ok_complete: "asg_ok (complete S) a = asg_ok S a"
  unfolding asg_ok_def entries_ok_def complete_fields ..

lemma start_assignments_total:
  "\<exists>a0. start_assignments S = Some a0 \<and> asg_ok S a0"
proof -
  have e: "entries_ok (complete S) []" by (rule entries_okI) simp
  have sub: "set (variables S) \<subseteq> set (variables (complete S))"
    by (simp add: complete_fields)
  from init_assignments_total[OF complete_imps_ok sub e]
  obtain a where i: "init_assignments (complete S) (variables S) [] = Some a"
    and ea: "entries_ok (complete S) a"
    and k: "\<forall>k. k \<in> set (variables S) \<longrightarrow> map_of a k \<noteq> None"
    by auto
  have "asg_ok (complete S) a"
  proof (rule asg_okI[OF ea])
    fix var assume "var \<in> set (variables (complete S))"
    then have "var \<in> set (variables S)" by (simp add: complete_fields)
    with k show "map_of a var \<noteq> None" by blast
  qed
  then have "asg_ok S a" by (simp only: asg_ok_complete)
  with i show ?thesis unfolding start_assignments_def by blast
qed

lemma ground_assignments_total:
  "\<exists>a1. ground_assignments S = Some a1 \<and> asg_ok S a1"
proof -
  from start_assignments_total obtain a0 where
    s: "start_assignments S = Some a0" and ok: "asg_ok S a0" by blast
  from extract_pivots_total[OF wf_simplify, of "ground_truth S" a0] obtain g where
    g: "extract_pivots (simplify (ground_truth S) a0) = Some g" by blast
  have "asg_ok S (fold ground_step g a0)" using fold_ground_step_le ok by (rule asg_ok_le)
  with s g show ?thesis by (simp add: ground_assignments_def)
qed

lemma solve_total: "\<exists>a. solve S = Some a"
proof -
  from ground_assignments_total obtain a1 where
    g: "ground_assignments S = Some a1" and ok: "asg_ok S a1" by blast
  from ok have "asg_ok (complete S) a1" by (simp add: asg_ok_complete)
  from fixpoint_loop_total[OF complete_imps_ok this] g show ?thesis by (simp add: solve_def)
qed

text \<open>
  C5. \<open>solve\<close> returns an assignment for every solver state, so also when the ground truth
  simplifies to \<open>FALSE\<close>. \<open>FALSE\<close> has no pivots; when the ground truth simplifies to
  \<open>FALSE\<close> against the initial assignment, the assignment that enters the loop is the
  initial one, unchanged. An instance: variable \<open>x\<close>, values \<open>v1\<close> and \<open>v3\<close>, the implication
  \<open>Eq(x, v3) \<rightarrow> FALSE\<close> and the ground truth \<open>Eq(x, v3)\<close>. The ground truth simplifies to
  \<open>FALSE\<close>, and \<open>solve\<close> returns \<open>x\<close> with the candidate \<open>v1\<close>.
\<close>

theorem C5_latent_unsat_silent:
  "(\<exists>a. solve S = Some a)
   \<and> extract_pivots FALSE = Some []
   \<and> (\<forall>a0. start_assignments S = Some a0 \<and> simplify (ground_truth S) a0 = FALSE
          \<longrightarrow> ground_assignments S = Some a0)
   \<and> start_assignments
        \<lparr>variables = [''x''], values' = [''v1'', ''v3''],
         implications = [Eq_new ''x'' ''v3'' \<mapsto> FALSE], ground_truth = Eq_new ''x'' ''v3''\<rparr>
       = Some [(''x'', [''v1''])]
   \<and> simplify (Eq_new ''x'' ''v3'') [(''x'', [''v1''])] = FALSE
   \<and> solve
        \<lparr>variables = [''x''], values' = [''v1'', ''v3''],
         implications = [Eq_new ''x'' ''v3'' \<mapsto> FALSE], ground_truth = Eq_new ''x'' ''v3''\<rparr>
       = Some [(''x'', [''v1''])]"
proof -
  have 1: "start_assignments
        \<lparr>variables = [''x''], values' = [''v1'', ''v3''],
         implications = [Eq_new ''x'' ''v3'' \<mapsto> FALSE], ground_truth = Eq_new ''x'' ''v3''\<rparr>
       = Some [(''x'', [''v1''])]" by code_simp
  have 2: "simplify (Eq_new ''x'' ''v3'') [(''x'', [''v1''])] = FALSE" by code_simp
  have 3: "solve
        \<lparr>variables = [''x''], values' = [''v1'', ''v3''],
         implications = [Eq_new ''x'' ''v3'' \<mapsto> FALSE], ground_truth = Eq_new ''x'' ''v3''\<rparr>
       = Some [(''x'', [''v1''])]" by code_simp
  have 4: "ground_assignments S = Some a0"
    if "start_assignments S = Some a0" and "simplify (ground_truth S) a0 = FALSE" for a0
    using that by (simp add: ground_assignments_def)
  from solve_total[of S] 1 2 3 4 show ?thesis by (simp del: simplify.simps)
qed

theorem C5_witness:
  "ground_assignments
        \<lparr>variables = [''x''], values' = [''v1'', ''v3''],
         implications = [Eq_new ''x'' ''v3'' \<mapsto> FALSE], ground_truth = Eq_new ''x'' ''v3''\<rparr>
       = Some [(''x'', [''v1''])]
   \<and> solve
        \<lparr>variables = [''x''], values' = [''v1'', ''v3''],
         implications = [Eq_new ''x'' ''v3'' \<mapsto> FALSE], ground_truth = Eq_new ''x'' ''v3''\<rparr>
       = Some [(''x'', [''v1''])]"
  using C5_latent_unsat_silent[of
        "\<lparr>variables = [''x''], values' = [''v1'', ''v3''],
         implications = [Eq_new ''x'' ''v3'' \<mapsto> FALSE], ground_truth = Eq_new ''x'' ''v3''\<rparr>"]
  by (simp del: simplify.simps)


section \<open>Registration\<close>

text \<open>
  C6, as the code has it. \<open>implies(e, implication)\<close> raises at the call exactly when \<open>e\<close> is
  not an \<open>Eq\<close> node (one of the two constants, or an \<open>And\<close> or \<open>Or\<close> node) or is already a
  key of \<open>implications\<close>, and otherwise stores the implication; \<open>always_true(formula)\<close>
  raises exactly when \<open>formula\<close> is \<open>FALSE\<close>, and otherwise conjoins it to the ground truth.
\<close>

theorem C6_registration:
  "implies' S e implication =
     (if e = TRUE \<or> e = FALSE \<or> e \<in> dom (implications S) \<or> \<not> is_Eq e then None
      else Some (S\<lparr>implications := (implications S)(e \<mapsto> implication)\<rparr>))
   \<and> always_true S formula =
     (if formula = FALSE then None
      else Some (S\<lparr>ground_truth := And_new [ground_truth S, formula]\<rparr>))"
  by (auto simp: implies'_def always_true_def)

theorem C6_witness:
  "implies' Solver_init (Eq_new ''t'' ''v1'') FALSE
     = Some (Solver_init\<lparr>implications := [Eq ''v1'' ''t'' \<mapsto> FALSE]\<rparr>)
   \<and> implies' Solver_init (Eq_new ''t'' ''t'') FALSE = None
   \<and> implies' (Solver_init\<lparr>implications := [Eq ''v1'' ''t'' \<mapsto> FALSE]\<rparr>)
        (Eq_new ''v1'' ''t'') TRUE = None
   \<and> always_true Solver_init FALSE = None
   \<and> always_true Solver_init (Eq_new ''t'' ''v1'')
     = Some (Solver_init\<lparr>ground_truth := Eq ''v1'' ''t''\<rparr>)"
  using C6_registration[of Solver_init "Eq_new ''t'' ''v1''" FALSE FALSE]
    C6_registration[of Solver_init "Eq_new ''t'' ''t''" FALSE "Eq_new ''t'' ''v1''"]
    C6_registration[of "Solver_init\<lparr>implications := [Eq ''v1'' ''t'' \<mapsto> FALSE]\<rparr>"
      "Eq_new ''v1'' ''t''" TRUE FALSE]
  by (simp add: Solver_init_def Eq_new_cases And_new_def)

text \<open>
  An \<open>And\<close> node is neither constant and is no key of an empty table, and \<open>implies\<close>
  still raises for it: \<open>assert isinstance(e, Eq)\<close>.
\<close>

theorem C6_counterexample:
  "And_new [Eq_new ''x'' ''a'', Eq_new ''y'' ''b''] \<noteq> TRUE
   \<and> And_new [Eq_new ''x'' ''a'', Eq_new ''y'' ''b''] \<noteq> FALSE
   \<and> implications Solver_init (And_new [Eq_new ''x'' ''a'', Eq_new ''y'' ''b'']) = None
   \<and> implies' Solver_init (And_new [Eq_new ''x'' ''a'', Eq_new ''y'' ''b'']) TRUE = None"
  by code_simp

section \<open>The documented example\<close>

text \<open>
  C1. The example of the docstring of \<open>extract_pivots\<close>, set up through the solver's own
  methods: variable \<open>t\<close>, values \<open>v1\<close>, \<open>v2\<close>, \<open>v3\<close>, the implications
  \<open>Eq(t, v1) \<rightarrow> TRUE\<close>, \<open>Eq(t, v2) \<rightarrow> TRUE\<close>, \<open>Eq(t, v3) \<rightarrow> FALSE\<close> and the ground truth
  \<open>t = v1 | (t = v2 & (t = v2 | t = v3))\<close>. No call raises, and \<open>solve\<close> returns the
  assignment whose only key is \<open>t\<close>, with the candidate set \<open>{v1, v2}\<close>.
\<close>

theorem C1_solve_documented_example:
  "Option.bind
     (implies' (register_value (register_value (register_value
          (register_variable Solver_init ''t'') ''v1'') ''v2'') ''v3'')
        (Eq_new ''t'' ''v1'') TRUE)
     (\<lambda>S1. Option.bind (implies' S1 (Eq_new ''t'' ''v2'') TRUE)
     (\<lambda>S2. Option.bind (implies' S2 (Eq_new ''t'' ''v3'') FALSE)
     (\<lambda>S3. Option.bind
        (always_true S3
           (Or_new [Eq_new ''t'' ''v1'',
                    And_new [Eq_new ''t'' ''v2'',
                             Or_new [Eq_new ''t'' ''v2'', Eq_new ''t'' ''v3'']]]))
        solve)))
   = Some [(''t'', [''v1'', ''v2''])]"
  by code_simp

end
